theory Spec2Isabelle
  imports
    Main
    "HOL-Library.Word"
    "HOL-Library.Char_ord"
    "HOL-Library.List_Lexorder"
    "HOL-Library.AList"
    "HOL-Library.Multiset"
begin

section \<open>The in-memory segment builder (index/scorch/segment/mem/build.go)\<close>

text \<open>
  The builder turns a batch of analysis results into one segment. The model follows
  build.go function by function. Mutation of the segment is explicit state passing, a
  run-time panic is the \<open>Inl\<close> branch of a sum, and a \<open>for ... range\<close> loop over a
  slice is a fold over the list.

  Go leaves the iteration order of \<open>range\<close> over a map unspecified. A term-frequency map
  is therefore an association list whose order is the order in which the dictionary pass
  ranges over it, and the order in which document assembly ranges over the collated
  per-document map is a parameter \<open>sched\<close> of the model.

  Field ids are \<open>uint16\<close> in the source and are 16-bit words here, so that the conversion
  \<open>uint16(len(s.FieldsInv) + 1)\<close> wraps as it does in Go. Token lengths, frequencies and
  offsets are Go \<open>int\<close> values that the source converts to \<open>uint64\<close> bit for bit; they
  are 64-bit words. Posting ordinals, document numbers and slice lengths count objects held
  in memory and are natural numbers; the one place where the source relies on unsigned
  wrap-around of an ordinal, \<open>fieldTermPostings-1\<close> at ordinal 0, is written out.
\<close>

subsection \<open>Data\<close>

type_synonym uint16 = "16 word"
type_synonym uint64 = "64 word"
type_synonym byte = char

datatype panic =
    Analyzed_index_out_of_range
  | Length_index_out_of_range
  | Dicts_index_out_of_range
  | DictKeys_index_out_of_range
  | Postings_index_out_of_range
  | Locs_index_out_of_range
  | Stored_index_out_of_range

text \<open>analysis.TokenLocation, analysis.TokenFreq and analysis.TokenFrequencies.\<close>

record token_location =
  LocField :: string
  ArrayPositions :: "uint64 list"
  Start :: uint64
  End :: uint64
  Position :: uint64

record token_freq =
  Locations :: "token_location list"
  frequency :: uint64

type_synonym TokenFrequencies = "(string \<times> token_freq) list"

text \<open>
  document.Field, as far as build.go reads it: the name, the dynamic type that
  \<open>encodeFieldType\<close> switches on, the two option flags, the value and the array positions.
\<close>

datatype field_kind =
  TextField | NumericField | DateTimeField | BooleanField | GeoPointField
  | CompositeFieldKind | OtherField

record field =
  Name :: string
  Kind :: field_kind
  IsStored :: bool
  IncludeDocValues :: bool
  Value :: "byte list"
  FieldArrayPositions :: "uint64 list"

text \<open>A composite field: its name and what its \<open>Analyze()\<close> returns.\<close>

record composite_field =
  CompositeName :: string
  Analyze :: "uint64 \<times> TokenFrequencies"

record document =
  CompositeFields :: "composite_field list"
  Fields :: "field list"

record analysis_result =
  Document :: document
  Analyzed :: "TokenFrequencies list"
  Length :: "uint64 list"

text \<open>
  The norm \<open>float32(1.0/math.Sqrt(float64(l)))\<close> is kept symbolic: \<open>InvSqrt l\<close> stands for
  the value of that floating-point expression at the Go \<open>int\<close> \<open>l\<close>.
\<close>

datatype float32 = InvSqrt int

text \<open>
  The segment. A roaring bitmap is the set of document numbers it holds. A Go map from
  field id to a slice is a partial map; a missing key reads as the nil slice.
\<close>

record segment =
  FieldsMap :: "string \<rightharpoonup> uint16"
  FieldsInv :: "string list"
  Dicts :: "(string \<rightharpoonup> nat) list"
  DictKeys :: "string list list"
  Postings :: "nat set list"
  PostingsLocs :: "nat set list"
  Freqs :: "uint64 list list"
  Norms :: "float32 list list"
  Locfields :: "uint16 list list"
  Locstarts :: "uint64 list list"
  Locends :: "uint64 list list"
  Locpos :: "uint64 list list"
  Locarraypos :: "uint64 list list list"
  Stored :: "(uint16 \<rightharpoonup> byte list list) list"
  StoredTypes :: "(uint16 \<rightharpoonup> byte list) list"
  StoredPos :: "(uint16 \<rightharpoonup> uint64 list list) list"
  DocValueFields :: "uint16 \<rightharpoonup> bool"

subsection \<open>Loops and panics\<close>

definition thenE :: "'e + 'a \<Rightarrow> ('a \<Rightarrow> 'e + 'b) \<Rightarrow> 'e + 'b" where
  "thenE m f = (case m of Inl e \<Rightarrow> Inl e | Inr a \<Rightarrow> f a)"

text \<open>A \<open>range\<close> loop over a slice whose body may panic.\<close>

fun foldE :: "('a \<Rightarrow> 's \<Rightarrow> 'e + 's) \<Rightarrow> 'a list \<Rightarrow> 's \<Rightarrow> 'e + 's" where
  "foldE f [] s = Inr s"
| "foldE f (x # xs) s = (case f x s of Inl e \<Rightarrow> Inl e | Inr s' \<Rightarrow> foldE f xs s')"

text \<open>Reading a map of slices at a key: the nil slice when the key is missing.\<close>

definition slot :: "('k \<rightharpoonup> 'v list) \<Rightarrow> 'k \<Rightarrow> 'v list" where
  "slot m k = (case m k of None \<Rightarrow> [] | Some vs \<Rightarrow> vs)"

subsection \<open>New, getOrDefineField, addDocument, encodeFieldType\<close>

text \<open>
  Modelled from the spec: \<open>New\<close> is defined in segment.go, which is not among the sources.
  The spec has the orchestrator "create an empty segment": every map and slice is empty.
\<close>

definition New :: segment where
  "New = \<lparr>FieldsMap = Map.empty, FieldsInv = [], Dicts = [], DictKeys = [],
     Postings = [], PostingsLocs = [], Freqs = [], Norms = [], Locfields = [],
     Locstarts = [], Locends = [], Locpos = [], Locarraypos = [],
     Stored = [], StoredTypes = [], StoredPos = [], DocValueFields = Map.empty\<rparr>"

definition getOrDefineField :: "string \<Rightarrow> segment \<Rightarrow> nat \<times> segment" where
  "getOrDefineField name s =
     (case FieldsMap s name of
        Some fieldID \<Rightarrow> (unat (fieldID - 1), s)
      | None \<Rightarrow>
          (let fieldID = (word_of_nat (length (FieldsInv s) + 1) :: uint16) in
             (unat (fieldID - 1),
              s\<lparr>FieldsMap := (FieldsMap s)(name \<mapsto> fieldID),
                FieldsInv := FieldsInv s @ [name],
                Dicts := Dicts s @ [Map.empty],
                DictKeys := DictKeys s @ [[]]\<rparr>)))"

definition addDocument :: "segment \<Rightarrow> nat \<times> segment" where
  "addDocument s =
     (length (Stored s),
      s\<lparr>Stored := Stored s @ [Map.empty],
        StoredTypes := StoredTypes s @ [Map.empty],
        StoredPos := StoredPos s @ [Map.empty]\<rparr>)"

fun encodeFieldType :: "field \<Rightarrow> byte" where
  "encodeFieldType f =
     (case Kind f of
        TextField \<Rightarrow> CHR ''t''
      | NumericField \<Rightarrow> CHR ''n''
      | DateTimeField \<Rightarrow> CHR ''d''
      | BooleanField \<Rightarrow> CHR ''b''
      | GeoPointField \<Rightarrow> CHR ''g''
      | CompositeFieldKind \<Rightarrow> CHR ''c''
      | OtherField \<Rightarrow> CHR ''x'')"

subsection \<open>initializeDict\<close>

text \<open>
  The body of the closure \<open>processField\<close> of \<open>initializeDict\<close> for one term; the state
  is the counter \<open>numPostings\<close> and the segment.
\<close>

definition dictTerm ::
  "uint16 \<Rightarrow> string \<times> token_freq \<Rightarrow> nat \<times> segment \<Rightarrow> panic + nat \<times> segment" where
  "dictTerm fieldID kv ns =
     (case ns of (numPostings, s) \<Rightarrow>
        if length (Dicts s) \<le> unat fieldID then Inl Dicts_index_out_of_range
        else if (Dicts s ! unat fieldID) (fst kv) \<noteq> None then Inr (numPostings, s)
        else if length (DictKeys s) \<le> unat fieldID then Inl DictKeys_index_out_of_range
        else Inr (numPostings + 1,
               s\<lparr>Dicts := (Dicts s)[unat fieldID :=
                             (Dicts s ! unat fieldID)(fst kv \<mapsto> numPostings + 1)],
                 DictKeys := (DictKeys s)[unat fieldID :=
                             DictKeys s ! unat fieldID @ [fst kv]]\<rparr>))"

definition dictProcessField ::
  "uint16 \<Rightarrow> TokenFrequencies \<Rightarrow> nat \<times> segment \<Rightarrow> panic + nat \<times> segment" where
  "dictProcessField fieldID tf ns = foldE (dictTerm fieldID) tf ns"

definition dictComposite ::
  "composite_field \<Rightarrow> nat \<times> segment \<Rightarrow> panic + nat \<times> segment" where
  "dictComposite cf ns =
     (case ns of (numPostings, s) \<Rightarrow>
        (case getOrDefineField (CompositeName cf) s of (fid, s') \<Rightarrow>
           dictProcessField (word_of_nat fid) (snd (Analyze cf)) (numPostings, s')))"

definition dictField ::
  "analysis_result \<Rightarrow> nat \<times> field \<Rightarrow> nat \<times> segment \<Rightarrow> panic + nat \<times> segment" where
  "dictField result ifield ns =
     (case ns of (numPostings, s) \<Rightarrow>
        (case getOrDefineField (Name (snd ifield)) s of (fid, s') \<Rightarrow>
           if length (Analyzed result) \<le> fst ifield then Inl Analyzed_index_out_of_range
           else dictProcessField (word_of_nat fid) (Analyzed result ! fst ifield)
                  (numPostings, s')))"

definition dictResult ::
  "analysis_result \<Rightarrow> nat \<times> segment \<Rightarrow> panic + nat \<times> segment" where
  "dictResult result ns =
     thenE (foldE dictComposite (CompositeFields (Document result)) ns)
       (foldE (dictField result) (enumerate 0 (Fields (Document result))))"

definition allocPostings :: "nat \<Rightarrow> segment \<Rightarrow> segment" where
  "allocPostings numPostings s =
     s\<lparr>Postings := replicate numPostings {},
       PostingsLocs := replicate numPostings {},
       Freqs := replicate numPostings [],
       Norms := replicate numPostings [],
       Locfields := replicate numPostings [],
       Locstarts := replicate numPostings [],
       Locends := replicate numPostings [],
       Locpos := replicate numPostings [],
       Locarraypos := replicate numPostings []\<rparr>"

definition initializeDict :: "analysis_result list \<Rightarrow> segment \<Rightarrow> panic + segment" where
  "initializeDict results s =
     thenE (foldE dictResult results (0, s))
       (\<lambda>ns. Inr (allocPostings (fst ns) (snd ns)))"

subsection \<open>processDocument\<close>

text \<open>
  Modelled from the spec: \<open>TokenFrequencies.MergeAll\<close> is defined in the analysis
  package, which is not among the sources. The spec has the running map of a field take
  the other map so that "frequencies and location lists combine additively"; it gives the
  field name that the call passes no role.
\<close>

definition mergeTerm :: "string \<times> token_freq \<Rightarrow> TokenFrequencies \<Rightarrow> TokenFrequencies" where
  "mergeTerm kv tfs =
     (case map_of tfs (fst kv) of
        Some existingTf \<Rightarrow>
          AList.update (fst kv)
            \<lparr>Locations = Locations existingTf @ Locations (snd kv),
             frequency = frequency existingTf + frequency (snd kv)\<rparr> tfs
      | None \<Rightarrow> tfs @ [kv])"

definition MergeAll :: "TokenFrequencies \<Rightarrow> string \<Rightarrow> TokenFrequencies \<Rightarrow> TokenFrequencies" where
  "MergeAll tfs remoteField other = fold mergeTerm other tfs"

text \<open>The two maps that collate a document: \<open>docMap\<close> and \<open>fieldLens\<close>.\<close>

type_synonym collation = "(uint16 \<times> TokenFrequencies) list \<times> (uint16 \<Rightarrow> uint64)"

text \<open>The closure \<open>processField\<close> of \<open>processDocument\<close>.\<close>

definition collateField ::
  "uint16 \<Rightarrow> string \<Rightarrow> uint64 \<Rightarrow> TokenFrequencies \<Rightarrow> collation \<Rightarrow> collation" where
  "collateField fld name l tf c =
     (case c of (docMap, fieldLens) \<Rightarrow>
        ((case map_of docMap fld of
            Some existingFreqs \<Rightarrow> AList.update fld (MergeAll existingFreqs name tf) docMap
          | None \<Rightarrow> docMap @ [(fld, tf)]),
         fieldLens(fld := fieldLens fld + l)))"

text \<open>The closure \<open>storeField\<close>.\<close>

definition storeField ::
  "nat \<Rightarrow> uint16 \<Rightarrow> byte \<Rightarrow> byte list \<Rightarrow> uint64 list \<Rightarrow> segment \<Rightarrow> panic + segment" where
  "storeField docNum fld typ val pos s =
     (if docNum < length (Stored s) \<and> docNum < length (StoredTypes s)
         \<and> docNum < length (StoredPos s)
      then Inr (s\<lparr>Stored := (Stored s)[docNum :=
                     (Stored s ! docNum)(fld \<mapsto> slot (Stored s ! docNum) fld @ [val])],
                 StoredTypes := (StoredTypes s)[docNum :=
                     (StoredTypes s ! docNum)(fld \<mapsto> slot (StoredTypes s ! docNum) fld @ [typ])],
                 StoredPos := (StoredPos s)[docNum :=
                     (StoredPos s ! docNum)(fld \<mapsto> slot (StoredPos s ! docNum) fld @ [pos])]\<rparr>)
      else Inl Stored_index_out_of_range)"

definition procComposite :: "composite_field \<Rightarrow> collation \<times> segment \<Rightarrow> collation \<times> segment" where
  "procComposite cf cs =
     (case cs of (c, s) \<Rightarrow>
        (case getOrDefineField (CompositeName cf) s of (fid, s') \<Rightarrow>
           (collateField (word_of_nat fid) (CompositeName cf)
              (fst (Analyze cf)) (snd (Analyze cf)) c, s')))"

definition procField ::
  "analysis_result \<Rightarrow> nat \<Rightarrow> nat \<times> field \<Rightarrow> collation \<times> segment
     \<Rightarrow> panic + collation \<times> segment" where
  "procField result docNum ifield cs =
     (case cs of (c, s) \<Rightarrow>
        (case getOrDefineField (Name (snd ifield)) s of (fid, s1) \<Rightarrow>
           if length (Length result) \<le> fst ifield then Inl Length_index_out_of_range
           else if length (Analyzed result) \<le> fst ifield then Inl Analyzed_index_out_of_range
           else
             thenE (if IsStored (snd ifield)
                    then storeField docNum (word_of_nat fid) (encodeFieldType (snd ifield))
                           (Value (snd ifield)) (FieldArrayPositions (snd ifield)) s1
                    else Inr s1)
               (\<lambda>s2. Inr (collateField (word_of_nat fid) (Name (snd ifield))
                             (Length result ! fst ifield) (Analyzed result ! fst ifield) c,
                           if IncludeDocValues (snd ifield)
                           then s2\<lparr>DocValueFields := (DocValueFields s2)(word_of_nat fid \<mapsto> True)\<rparr>
                           else s2))))"

text \<open>The body of the loop over the locations of one token frequency.\<close>

definition addLocation :: "uint16 \<Rightarrow> nat \<Rightarrow> token_location \<Rightarrow> segment \<Rightarrow> panic + segment" where
  "addLocation fieldID pid loc s =
     (case (if LocField loc \<noteq> []
            then (case getOrDefineField (LocField loc) s of (fid, s') \<Rightarrow> (word_of_nat fid, s'))
            else (fieldID, s)) of (locf, s1) \<Rightarrow>
        if pid < length (Locfields s1) \<and> pid < length (Locstarts s1)
           \<and> pid < length (Locends s1) \<and> pid < length (Locpos s1)
           \<and> pid < length (Locarraypos s1)
        then Inr (s1\<lparr>Locfields := (Locfields s1)[pid := Locfields s1 ! pid @ [locf]],
                    Locstarts := (Locstarts s1)[pid := Locstarts s1 ! pid @ [Start loc]],
                    Locends := (Locends s1)[pid := Locends s1 ! pid @ [End loc]],
                    Locpos := (Locpos s1)[pid := Locpos s1 ! pid @ [Position loc]],
                    Locarraypos := (Locarraypos s1)[pid := Locarraypos s1 ! pid @
                      [if 0 < length (ArrayPositions loc) then ArrayPositions loc else []]]\<rparr>)
        else Inl Locs_index_out_of_range)"

text \<open>
  The posting index of a (field, term) pair as \<open>processDocument\<close> computes it: the map
  lookup yields 0 for a missing term, and \<open>fieldTermPostings-1\<close> is unsigned 64-bit
  subtraction, which wraps at 0.
\<close>

definition postingIndex :: "segment \<Rightarrow> uint16 \<Rightarrow> string \<Rightarrow> nat" where
  "postingIndex s fieldID trm =
     (let fieldTermPostings = (case (Dicts s ! unat fieldID) trm of None \<Rightarrow> 0 | Some v \<Rightarrow> v)
      in if fieldTermPostings = 0 then 2 ^ 64 - 1 else fieldTermPostings - 1)"

text \<open>The body of the inner loop over the collated map, for one (field, term) entry.\<close>

definition addPosting ::
  "nat \<Rightarrow> (uint16 \<Rightarrow> uint64) \<Rightarrow> uint16 \<times> string \<times> token_freq \<Rightarrow> segment \<Rightarrow> panic + segment" where
  "addPosting docNum fieldLens e s =
     (case e of (fieldID, trm, tokenFreq) \<Rightarrow>
        if length (Dicts s) \<le> unat fieldID then Inl Dicts_index_out_of_range
        else
          (let pid = postingIndex s fieldID trm in
             if pid < length (Postings s) \<and> pid < length (Freqs s)
                \<and> pid < length (Norms s) \<and> pid < length (PostingsLocs s)
             then
               (let s1 = s\<lparr>Postings := (Postings s)[pid := insert docNum (Postings s ! pid)],
                           Freqs := (Freqs s)[pid := Freqs s ! pid @ [frequency tokenFreq]],
                           Norms := (Norms s)[pid := Norms s ! pid @
                                       [InvSqrt (sint (fieldLens fieldID))]]\<rparr>
                in if 0 < length (Locations tokenFreq)
                   then foldE (addLocation fieldID pid) (Locations tokenFreq)
                          (s1\<lparr>PostingsLocs := (PostingsLocs s1)[pid :=
                                 insert docNum (PostingsLocs s1 ! pid)]\<rparr>)
                   else Inr s1)
             else Inl Postings_index_out_of_range))"

text \<open>The entries of the collated map, field by field.\<close>

definition entries ::
  "(uint16 \<times> TokenFrequencies) list \<Rightarrow> (uint16 \<times> string \<times> token_freq) list" where
  "entries docMap = concat (map (\<lambda>ftf. map (\<lambda>kv. (fst ftf, fst kv, snd kv)) (snd ftf)) docMap)"

type_synonym schedule =
  "nat \<Rightarrow> (uint16 \<times> string \<times> token_freq) list \<Rightarrow> (uint16 \<times> string \<times> token_freq) list"

definition processDocument :: "schedule \<Rightarrow> analysis_result \<Rightarrow> segment \<Rightarrow> panic + segment" where
  "processDocument sched result s =
     (case addDocument s of (docNum, s0) \<Rightarrow>
        thenE (foldE (procField result docNum) (enumerate 0 (Fields (Document result)))
                 (fold procComposite (CompositeFields (Document result))
                    (([], \<lambda>_. 0), s0)))
          (\<lambda>cs. foldE (addPosting docNum (snd (fst cs)))
                   (sched docNum (entries (fst (fst cs)))) (snd cs)))"

subsection \<open>NewFromAnalyzedDocs\<close>

definition sortDictKeys :: "segment \<Rightarrow> segment" where
  "sortDictKeys s = s\<lparr>DictKeys := map sort (DictKeys s)\<rparr>"

text \<open>
  \<open>updateSizeInBytes\<close> (segment.go) writes only the size counter of the segment, which
  nothing here reads; the model has no such field.
\<close>

definition NewFromAnalyzedDocs :: "schedule \<Rightarrow> analysis_result list \<Rightarrow> panic + segment" where
  "NewFromAnalyzedDocs sched results =
     thenE (initializeDict results (snd (getOrDefineField ''_id'' New)))
       (\<lambda>s1. thenE (foldE (processDocument sched) results s1)
                (\<lambda>s2. Inr (sortDictKeys s2)))"

section \<open>Invariants, schedules and example inputs\<close>

definition reg_inv :: "segment \<Rightarrow> bool" where
  "reg_inv s \<longleftrightarrow>
     length (Dicts s) = length (FieldsInv s) \<and> length (DictKeys s) = length (FieldsInv s)
     \<and> distinct (FieldsInv s) \<and> dom (FieldsMap s) = set (FieldsInv s)
     \<and> (\<forall>k<length (FieldsInv s). FieldsMap s (FieldsInv s ! k) = Some (word_of_nat (Suc k)))"

definition reg :: "segment \<Rightarrow> (string \<rightharpoonup> uint16) \<times> string list \<times> nat \<times> nat" where
  "reg s = (FieldsMap s, FieldsInv s, length (Dicts s), length (DictKeys s))"

definition reg_ok :: "segment \<Rightarrow> bool" where
  "reg_ok s \<longleftrightarrow> reg_inv s \<and> FieldsMap s ''_id'' = Some 1"

inductive reachable :: "segment \<Rightarrow> bool" where
  r_identity: "reachable (snd (getOrDefineField ''_id'' New))"
| r_define: "reachable s \<Longrightarrow> reachable (snd (getOrDefineField name s))"
| r_dict: "reachable s \<Longrightarrow> initializeDict results s = Inr s' \<Longrightarrow> reachable s'"
| r_assemble: "reachable s \<Longrightarrow> processDocument sched result s = Inr s' \<Longrightarrow> reachable s'"
| r_sort: "reachable s \<Longrightarrow> reachable (sortDictKeys s)"

definition fieldName :: "nat \<Rightarrow> string" where
  "fieldName n = replicate (Suc n) CHR ''f''"

definition defineFields :: "string list \<Rightarrow> segment \<Rightarrow> segment" where
  "defineFields names s = fold (\<lambda>name a. snd (getOrDefineField name a)) names s"

definition manyFields :: segment where
  "manyFields = defineFields (map fieldName [0..<65536]) (snd (getOrDefineField ''_id'' New))"

definition in_order :: schedule where
  "in_order docNum es = es"

definition tf_dog_cat :: TokenFrequencies where
  "tf_dog_cat =
     [(''dog'', \<lparr>Locations = [], frequency = 1\<rparr>),
      (''cat'', \<lparr>Locations =
                   [\<lparr>LocField = [], ArrayPositions = [], Start = 0, End = 3, Position = 1\<rparr>,
                    \<lparr>LocField = ''body'', ArrayPositions = [], Start = 8, End = 11, Position = 3\<rparr>],
                 frequency = 2\<rparr>)]"

definition tf_dog :: TokenFrequencies where
  "tf_dog = [(''dog'', \<lparr>Locations = [], frequency = 1\<rparr>)]"

definition body_field :: "string \<Rightarrow> field" where
  "body_field v = \<lparr>Name = ''body'', Kind = TextField, IsStored = True,
     IncludeDocValues = False, Value = v, FieldArrayPositions = []\<rparr>"

definition example_batch :: "analysis_result list" where
  "example_batch =
     [\<lparr>Document = \<lparr>CompositeFields = [\<lparr>CompositeName = ''_all'', Analyze = (3, tf_dog_cat)\<rparr>],
                    Fields = [body_field ''cat dog cat'']\<rparr>,
       Analyzed = [tf_dog_cat], Length = [3]\<rparr>,
      \<lparr>Document = \<lparr>CompositeFields = [], Fields = [body_field ''dog'']\<rparr>,
       Analyzed = [tf_dog], Length = [1]\<rparr>]"

definition example_segment :: segment where
  "example_segment =
     \<lparr>FieldsMap = [''_id'' \<mapsto> 1, ''_all'' \<mapsto> 2, ''body'' \<mapsto> 3],
      FieldsInv = [''_id'', ''_all'', ''body''],
      Dicts = [Map.empty, [''dog'' \<mapsto> 1, ''cat'' \<mapsto> 2], [''dog'' \<mapsto> 3, ''cat'' \<mapsto> 4]],
      DictKeys = [[], [''cat'', ''dog''], [''cat'', ''dog'']],
      Postings = [{0}, {0}, {1, 0}, {0}],
      PostingsLocs = [{}, {0}, {}, {0}],
      Freqs = [[1], [2], [1, 1], [2]],
      Norms = [[InvSqrt 3], [InvSqrt 3], [InvSqrt 3, InvSqrt 1], [InvSqrt 3]],
      Locfields = [[], [1, 2], [], [2, 2]],
      Locstarts = [[], [0, 8], [], [0, 8]],
      Locends = [[], [3, 11], [], [3, 11]],
      Locpos = [[], [1, 3], [], [1, 3]],
      Locarraypos = [[], [[], []], [], [[], []]],
      Stored = [[2 \<mapsto> [''cat dog cat'']], [2 \<mapsto> [''dog'']]],
      StoredTypes = [[2 \<mapsto> ''t''], [2 \<mapsto> ''t'']],
      StoredPos = [[2 \<mapsto> [[]]], [2 \<mapsto> [[]]]],
      DocValueFields = Map.empty\<rparr>"

definition post :: "segment \<Rightarrow> nat set list \<times> nat set list \<times> uint64 list list \<times> float32 list list" where
  "post s = (Postings s, PostingsLocs s, Freqs s, Norms s)"

definition locs ::
  "segment \<Rightarrow> uint16 list list \<times> uint64 list list \<times> uint64 list list \<times> uint64 list list
     \<times> uint64 list list list" where
  "locs s = (Locfields s, Locstarts s, Locends s, Locpos s, Locarraypos s)"

definition stor ::
  "segment \<Rightarrow> (uint16 \<rightharpoonup> byte list list) list \<times> (uint16 \<rightharpoonup> byte list) list
     \<times> (uint16 \<rightharpoonup> uint64 list list) list \<times> (uint16 \<rightharpoonup> bool)" where
  "stor s = (Stored s, StoredTypes s, StoredPos s, DocValueFields s)"

definition loc_consistent :: "segment \<Rightarrow> bool" where
  "loc_consistent s \<longleftrightarrow>
     length (PostingsLocs s) = length (Postings s)
     \<and> length (Locfields s) = length (Postings s)
     \<and> length (Locstarts s) = length (Postings s)
     \<and> length (Locends s) = length (Postings s)
     \<and> length (Locpos s) = length (Postings s)
     \<and> length (Locarraypos s) = length (Postings s)
     \<and> (\<forall>p<length (Postings s).
          length (Locstarts s ! p) = length (Locfields s ! p)
          \<and> length (Locends s ! p) = length (Locfields s ! p)
          \<and> length (Locpos s ! p) = length (Locfields s ! p)
          \<and> length (Locarraypos s ! p) = length (Locfields s ! p)
          \<and> PostingsLocs s ! p \<subseteq> Postings s ! p)"

definition see :: "'a \<Rightarrow> 'a list \<Rightarrow> 'a list" where
  "see x xs = (if x \<in> set xs then xs else xs @ [x])"

definition firstSeen :: "'a list \<Rightarrow> 'a list" where
  "firstSeen xs = fold see xs []"

definition fieldIDOf :: "segment \<Rightarrow> string \<Rightarrow> uint16" where
  "fieldIDOf s name = word_of_nat (fst (getOrDefineField name s))"

definition resultItems :: "analysis_result \<Rightarrow> (string \<times> TokenFrequencies) list" where
  "resultItems result =
     map (\<lambda>cf. (CompositeName cf, snd (Analyze cf))) (CompositeFields (Document result))
     @ map (\<lambda>ifield. (Name (snd ifield), Analyzed result ! fst ifield))
         (enumerate 0 (Fields (Document result)))"

definition itemPairs ::
  "(string \<Rightarrow> uint16) \<Rightarrow> (string \<times> TokenFrequencies) list \<Rightarrow> (uint16 \<times> string) list" where
  "itemPairs g items = concat (map (\<lambda>item. map (\<lambda>kv. (g (fst item), fst kv)) (snd item)) items)"

definition batchPairs :: "segment \<Rightarrow> analysis_result list \<Rightarrow> (uint16 \<times> string) list" where
  "batchPairs s results = itemPairs (fieldIDOf s) (concat (map resultItems results))"

definition dictItem ::
  "string \<times> TokenFrequencies \<Rightarrow> nat \<times> segment \<Rightarrow> panic + nat \<times> segment" where
  "dictItem item ns =
     dictProcessField (fieldIDOf (snd ns) (fst item)) (snd item)
       (fst ns, snd (getOrDefineField (fst item) (snd ns)))"

definition dict_rep :: "(uint16 \<times> string) list \<Rightarrow> segment \<Rightarrow> bool" where
  "dict_rep sp s \<longleftrightarrow>
     distinct sp
     \<and> (\<forall>i<length sp. unat (fst (sp ! i)) < length (Dicts s)
            \<and> (Dicts s ! unat (fst (sp ! i))) (snd (sp ! i)) = Some (Suc i))
     \<and> (\<forall>f<length (Dicts s). \<forall>t. (Dicts s ! f) t \<noteq> None \<longrightarrow> f < 65536 \<and> (word_of_nat f, t) \<in> set sp)
     \<and> length (DictKeys s) = length (Dicts s)
     \<and> (\<forall>f<length (DictKeys s). DictKeys s ! f = map snd (filter (\<lambda>p. unat (fst p) = f) sp))"

definition ext :: "segment \<Rightarrow> segment \<Rightarrow> bool" where
  "ext s s' \<longleftrightarrow>
     (\<forall>name w. FieldsMap s name = Some w \<longrightarrow> FieldsMap s' name = Some w)
     \<and> (\<exists>k. Dicts s' = Dicts s @ replicate k Map.empty \<and> DictKeys s' = DictKeys s @ replicate k [])"

definition dict_pass :: "(string \<times> TokenFrequencies) list \<Rightarrow> nat \<times> segment \<Rightarrow> bool" where
  "dict_pass seen ns \<longleftrightarrow>
     reg_inv (snd ns) \<and> fst ` set seen \<subseteq> dom (FieldsMap (snd ns))
     \<and> dict_rep (firstSeen (itemPairs (fieldIDOf (snd ns)) seen)) (snd ns)
     \<and> fst ns = length (firstSeen (itemPairs (fieldIDOf (snd ns)) seen))"

definition dict_built :: "analysis_result list \<Rightarrow> segment \<Rightarrow> bool" where
  "dict_built results s \<longleftrightarrow>
     reg_inv s
     \<and> fst ` set (concat (map resultItems results)) \<subseteq> dom (FieldsMap s)
     \<and> dict_rep (firstSeen (batchPairs s results)) s"

definition example_dict_segment :: segment where
  "example_dict_segment =
     \<lparr>FieldsMap = [''_id'' \<mapsto> 1, ''_all'' \<mapsto> 2, ''body'' \<mapsto> 3],
      FieldsInv = [''_id'', ''_all'', ''body''],
      Dicts = [Map.empty, [''dog'' \<mapsto> 1, ''cat'' \<mapsto> 2], [''dog'' \<mapsto> 3, ''cat'' \<mapsto> 4]],
      DictKeys = [[], [''dog'', ''cat''], [''dog'', ''cat'']],
      Postings = [{}, {}, {}, {}],
      PostingsLocs = [{}, {}, {}, {}],
      Freqs = [[], [], [], []],
      Norms = [[], [], [], []],
      Locfields = [[], [], [], []],
      Locstarts = [[], [], [], []],
      Locends = [[], [], [], []],
      Locpos = [[], [], [], []],
      Locarraypos = [[], [], [], []],
      Stored = [], StoredTypes = [], StoredPos = [],
      DocValueFields = Map.empty\<rparr>"

definition batchNames :: "analysis_result list \<Rightarrow> string list" where
  "batchNames results = map fst (concat (map resultItems results))"

definition namedPairs :: "analysis_result list \<Rightarrow> (string \<times> string) list" where
  "namedPairs results =
     concat (map (\<lambda>item. map (\<lambda>kv. (fst item, fst kv)) (snd item))
               (concat (map resultItems results)))"

definition oneFieldResult :: "string \<Rightarrow> TokenFrequencies \<Rightarrow> analysis_result" where
  "oneFieldResult name tf =
     \<lparr>Document = \<lparr>CompositeFields = [],
                   Fields = [\<lparr>Name = name, Kind = TextField, IsStored = False,
                              IncludeDocValues = False, Value = [], FieldArrayPositions = []\<rparr>]\<rparr>,
      Analyzed = [tf], Length = [word_of_nat (length tf)]\<rparr>"

definition tf_x :: TokenFrequencies where
  "tf_x = [(''x'', \<lparr>Locations = [], frequency = 1\<rparr>)]"

definition wrapBatch :: "analysis_result list" where
  "wrapBatch =
     map (\<lambda>n. oneFieldResult (fieldName n) []) [0..<65535]
     @ [oneFieldResult (fieldName 65535) tf_x, oneFieldResult ''_id'' tf_x]"



section \<open>Lemmas\<close>

subsection \<open>Sequencing and loops\<close>

lemma thenE_Inr_iff: "thenE m f = Inr b \<longleftrightarrow> (\<exists>a. m = Inr a \<and> f a = Inr b)"
  by (cases m) (simp_all add: thenE_def)

lemma thenE_Inl_iff: "thenE m f = Inl e \<longleftrightarrow> m = Inl e \<or> (\<exists>a. m = Inr a \<and> f a = Inl e)"
  by (cases m) (simp_all add: thenE_def)

lemma thenE_Inr [simp]: "thenE (Inr a) f = f a"
  by (simp add: thenE_def)

lemma thenE_Inl [simp]: "thenE (Inl e) f = Inl e"
  by (simp add: thenE_def)

lemma foldE_Cons: "foldE f (x # xs) s = thenE (f x s) (foldE f xs)"
  by (simp add: thenE_def)

declare foldE.simps(2) [simp del]

lemma foldE_Cons_Inr:
  "foldE f (x # xs) s = Inr t \<longleftrightarrow> (\<exists>s'. f x s = Inr s' \<and> foldE f xs s' = Inr t)"
  by (simp add: foldE_Cons thenE_Inr_iff)

lemma foldE_append: "foldE f (xs @ ys) s = thenE (foldE f xs s) (foldE f ys)"
  by (induction xs arbitrary: s) (auto simp: foldE_Cons thenE_def split: sum.splits)

lemma foldE_snoc_Inr:
  "foldE f (xs @ [x]) s = Inr t \<longleftrightarrow> (\<exists>s'. foldE f xs s = Inr s' \<and> f x s' = Inr t)"
  by (simp add: foldE_append thenE_Inr_iff foldE_Cons)

lemma foldE_invariant:
  assumes "foldE f xs s = Inr t" and "I s"
    and "\<And>x a b. x \<in> set xs \<Longrightarrow> I a \<Longrightarrow> f x a = Inr b \<Longrightarrow> I b"
  shows "I t"
  using assms
proof (induction xs arbitrary: s)
  case Nil
  then show ?case by simp
next
  case (Cons x xs)
  from Cons.prems(1) obtain s' where s': "f x s = Inr s'" "foldE f xs s' = Inr t"
    by (auto simp: foldE_Cons_Inr)
  have "I s'" using Cons.prems(2,3) s'(1) by auto
  then show ?case using Cons.IH [OF s'(2)] Cons.prems(3) by auto
qed

lemma foldE_ghost:
  assumes "foldE f xs s = Inr t" and "J d s"
    and "\<And>x d a b. x \<in> set xs \<Longrightarrow> J d a \<Longrightarrow> f x a = Inr b \<Longrightarrow> J (d @ [x]) b"
  shows "J (d @ xs) t"
  using assms
proof (induction xs arbitrary: s d)
  case Nil
  then show ?case by simp
next
  case (Cons x xs)
  from Cons.prems(1) obtain s' where s': "f x s = Inr s'" "foldE f xs s' = Inr t"
    by (auto simp: foldE_Cons_Inr)
  have "J (d @ [x]) s'" using Cons.prems(2,3) s'(1) by auto
  from Cons.IH [OF s'(2) this] Cons.prems(3) show ?case by auto
qed

lemma foldE_total:
  assumes "I s" and "\<And>x a. x \<in> set xs \<Longrightarrow> I a \<Longrightarrow> \<exists>b. f x a = Inr b \<and> I b"
  shows "\<exists>t. foldE f xs s = Inr t \<and> I t"
  using assms
proof (induction xs arbitrary: s)
  case Nil
  then show ?case by simp
next
  case (Cons x xs)
  then obtain s' where s': "f x s = Inr s'" "I s'" by (meson list.set_intros(1))
  from Cons.IH [OF s'(2)] Cons.prems(2) obtain t where "foldE f xs s' = Inr t" "I t"
    by (meson list.set_intros(2))
  with s' show ?case by (auto simp: foldE_Cons_Inr)
qed

lemma foldE_map: "foldE f (map g xs) s = foldE (\<lambda>x. f (g x)) xs s"
  by (induction xs arbitrary: s) (auto simp: foldE_Cons thenE_def split: sum.splits)

lemma foldE_concat:
  "foldE f (concat xss) s = foldE (\<lambda>xs. foldE f xs) xss s"
  by (induction xss arbitrary: s) (auto simp: foldE_append foldE_Cons thenE_def split: sum.splits)

lemma foldE_mono:
  assumes "foldE f xs s = Inr t"
    and "\<And>x a b. x \<in> set xs \<Longrightarrow> f x a = Inr b \<Longrightarrow> g x a = Inr b"
  shows "foldE g xs s = Inr t"
  using assms by (induction xs arbitrary: s) (auto simp: foldE_Cons_Inr)

subsection \<open>The field registry\<close>

lemma unat_fieldID: "unat ((word_of_nat (Suc k) :: uint16) - 1) = k mod 65536"
proof -
  have "(word_of_nat (Suc k) :: uint16) - 1 = word_of_nat k" by simp
  then show ?thesis by (simp add: unsigned_of_nat take_bit_eq_mod)
qed

lemma getOrDefineField_known:
  "FieldsMap s name = Some w \<Longrightarrow> getOrDefineField name s = (unat (w - 1), s)"
  by (simp add: getOrDefineField_def)

lemma getOrDefineField_new:
  "FieldsMap s name = None \<Longrightarrow> getOrDefineField name s =
     (length (FieldsInv s) mod 65536,
      s\<lparr>FieldsMap := (FieldsMap s)(name \<mapsto> word_of_nat (Suc (length (FieldsInv s)))),
        FieldsInv := FieldsInv s @ [name],
        Dicts := Dicts s @ [Map.empty],
        DictKeys := DictKeys s @ [[]]\<rparr>)"
  using unat_fieldID [of "length (FieldsInv s)"] by (simp add: getOrDefineField_def)

lemma reg_inv_New: "reg_inv New"
  by (simp add: reg_inv_def New_def)

lemma reg_inv_getOrDefineField: "reg_inv s \<Longrightarrow> reg_inv (snd (getOrDefineField name s))"
proof (cases "FieldsMap s name")
  case None
  assume r: "reg_inv s"
  then have notin: "name \<notin> set (FieldsInv s)" using None by (auto simp: reg_inv_def)
  show ?thesis using r notin
    by (auto simp: getOrDefineField_new [OF None] reg_inv_def nth_append less_Suc_eq)
next
  case (Some w)
  assume "reg_inv s"
  then show ?thesis by (simp add: getOrDefineField_known [OF Some])
qed

lemma getOrDefineField_cases:
  obtains (known) w where "FieldsMap s name = Some w" "getOrDefineField name s = (unat (w - 1), s)"
  | (new) "FieldsMap s name = None"
      "getOrDefineField name s =
        (length (FieldsInv s) mod 65536,
         s\<lparr>FieldsMap := (FieldsMap s)(name \<mapsto> word_of_nat (Suc (length (FieldsInv s)))),
           FieldsInv := FieldsInv s @ [name],
           Dicts := Dicts s @ [Map.empty],
           DictKeys := DictKeys s @ [[]]\<rparr>)"
  using getOrDefineField_known getOrDefineField_new by (cases "FieldsMap s name") blast+

subsection \<open>The sort step\<close>

lemma sortDictKeys_Dicts: "Dicts (sortDictKeys s) = Dicts s"
  by (simp add: sortDictKeys_def)

lemma sortDictKeys_idem: "sortDictKeys (sortDictKeys s) = sortDictKeys s"
  by (simp add: sortDictKeys_def sort_key_id_if_sorted cong: map_cong)

lemma NewFromAnalyzedDocs_sorted:
  "NewFromAnalyzedDocs sched results = Inr s \<Longrightarrow> \<exists>s2. s = sortDictKeys s2"
  by (auto simp: NewFromAnalyzedDocs_def thenE_Inr_iff)

subsection \<open>What a successful posting step did\<close>

lemma addPosting_Inr:
  assumes "addPosting d fl (f, t, tf) s = Inr s'"
  defines "p \<equiv> postingIndex s f t"
  defines "s1 \<equiv> s\<lparr>Postings := (Postings s)[p := insert d (Postings s ! p)],
               Freqs := (Freqs s)[p := Freqs s ! p @ [frequency tf]],
               Norms := (Norms s)[p := Norms s ! p @ [InvSqrt (sint (fl f))]]\<rparr>"
  shows "unat f < length (Dicts s) \<and> p < length (Postings s) \<and> p < length (Freqs s)
     \<and> p < length (Norms s) \<and> p < length (PostingsLocs s)
     \<and> (if Locations tf = [] then s' = s1
         else foldE (addLocation f p) (Locations tf)
                (s1\<lparr>PostingsLocs := (PostingsLocs s)[p := insert d (PostingsLocs s ! p)]\<rparr>) = Inr s')"
proof -
  have u: "unat f < length (Dicts s)"
    using assms(1) by (cases "length (Dicts s) \<le> unat f") (simp_all add: addPosting_def)
  have r: "p < length (Postings s) \<and> p < length (Freqs s)
     \<and> p < length (Norms s) \<and> p < length (PostingsLocs s)"
    using assms(1) u unfolding p_def addPosting_def Let_def prod.case
    by (meson Inl_Inr_False leD)
  show ?thesis
    using assms(1) u r unfolding p_def s1_def addPosting_def Let_def prod.case
    by (simp split: if_splits)
qed

lemma reg_ok_cong: "reg s' = reg s \<Longrightarrow> reg_ok s' = reg_ok s"
  by (simp add: reg_def reg_ok_def reg_inv_def)

lemma reg_ok_getOrDefineField: "reg_ok s \<Longrightarrow> reg_ok (snd (getOrDefineField name s))"
  unfolding reg_ok_def
  by (rule getOrDefineField_cases [of s name]) (use reg_inv_getOrDefineField [of s name] in auto)

lemma reg_ok_identity: "reg_ok (snd (getOrDefineField ''_id'' New))"
  using reg_inv_getOrDefineField [OF reg_inv_New, of "''_id''"]
  by (simp add: reg_ok_def) (simp add: getOrDefineField_def New_def)

subsection \<open>The registry through the dictionary pass\<close>

lemma dictTerm_reg: "dictTerm fieldID kv ns = Inr ns' \<Longrightarrow> reg (snd ns') = reg (snd ns)"
  by (cases ns) (auto simp: dictTerm_def reg_def split: if_splits)

lemma dictProcessField_reg:
  assumes "dictProcessField fieldID tf ns = Inr ns'" shows "reg (snd ns') = reg (snd ns)"
proof -
  have "reg (snd ns') = reg (snd ns)"
    by (rule foldE_invariant [where I = "\<lambda>a. reg (snd a) = reg (snd ns)", OF assms [unfolded dictProcessField_def]])
       (auto dest: dictTerm_reg)
  then show ?thesis .
qed

lemma dictComposite_reg_ok:
  assumes "dictComposite cf ns = Inr ns'" "reg_ok (snd ns)" shows "reg_ok (snd ns')"
proof -
  obtain n s where ns: "ns = (n, s)" by (cases ns)
  obtain fid s1 where g: "getOrDefineField (CompositeName cf) s = (fid, s1)"
    by (cases "getOrDefineField (CompositeName cf) s")
  from assms(1) have "dictProcessField (word_of_nat fid) (snd (Analyze cf)) (n, s1) = Inr ns'"
    by (simp add: dictComposite_def ns g)
  from dictProcessField_reg [OF this] have "reg (snd ns') = reg s1" by simp
  moreover have "reg_ok s1" using reg_ok_getOrDefineField [of s "CompositeName cf"] assms(2)
    by (simp add: ns g)
  ultimately show ?thesis using reg_ok_cong by blast
qed

lemma dictField_reg_ok:
  assumes "dictField result ifield ns = Inr ns'" "reg_ok (snd ns)" shows "reg_ok (snd ns')"
proof -
  obtain n s where ns: "ns = (n, s)" by (cases ns)
  obtain fid s1 where g: "getOrDefineField (Name (snd ifield)) s = (fid, s1)"
    by (cases "getOrDefineField (Name (snd ifield)) s")
  from assms(1) have "dictProcessField (word_of_nat fid) (Analyzed result ! fst ifield) (n, s1) = Inr ns'"
    by (simp add: dictField_def ns g split: if_splits)
  from dictProcessField_reg [OF this] have "reg (snd ns') = reg s1" by simp
  moreover have "reg_ok s1" using reg_ok_getOrDefineField [of s "Name (snd ifield)"] assms(2)
    by (simp add: ns g)
  ultimately show ?thesis using reg_ok_cong by blast
qed

lemma dictResult_reg_ok:
  assumes "dictResult result ns = Inr ns'" "reg_ok (snd ns)" shows "reg_ok (snd ns')"
proof -
  from assms(1) obtain m where m: "foldE dictComposite (CompositeFields (Document result)) ns = Inr m"
    and n: "foldE (dictField result) (enumerate 0 (Fields (Document result))) m = Inr ns'"
    by (auto simp: dictResult_def thenE_Inr_iff)
  have "reg_ok (snd m)"
    by (rule foldE_invariant [where I = "\<lambda>a. reg_ok (snd a)", OF m assms(2)]) (rule dictComposite_reg_ok)
  then show ?thesis
    by (rule foldE_invariant [where I = "\<lambda>a. reg_ok (snd a)", OF n]) (rule dictField_reg_ok)
qed

lemma allocPostings_reg: "reg (allocPostings n s) = reg s"
  by (simp add: allocPostings_def reg_def)

lemma initializeDict_reg_ok:
  assumes "initializeDict results s = Inr s'" "reg_ok s" shows "reg_ok s'"
proof -
  from assms(1) obtain ns where ns: "foldE dictResult results (0, s) = Inr ns"
    and s': "s' = allocPostings (fst ns) (snd ns)"
    by (auto simp: initializeDict_def thenE_Inr_iff)
  have "reg_ok (snd ns)"
    by (rule foldE_invariant [where I = "\<lambda>a. reg_ok (snd a)", OF ns]) (use assms(2) dictResult_reg_ok in auto)
  then show ?thesis by (simp add: s' reg_ok_cong [OF allocPostings_reg])
qed

subsection \<open>The registry through document assembly\<close>

lemma addDocument_reg: "reg (snd (addDocument s)) = reg s"
  by (simp add: addDocument_def reg_def)

lemma storeField_reg: "storeField d f t v p s = Inr s' \<Longrightarrow> reg s' = reg s"
  by (auto simp: storeField_def reg_def split: if_splits)

lemma procComposite_reg_ok: "reg_ok (snd cs) \<Longrightarrow> reg_ok (snd (procComposite cf cs))"
proof -
  assume r: "reg_ok (snd cs)"
  have "snd (procComposite cf cs) = snd (getOrDefineField (CompositeName cf) (snd cs))"
    by (cases cs) (simp add: procComposite_def split: prod.splits)
  then show ?thesis using reg_ok_getOrDefineField [OF r] by simp
qed

lemma fold_procComposite_reg_ok: "reg_ok (snd cs) \<Longrightarrow> reg_ok (snd (fold procComposite cfs cs))"
proof (induction cfs arbitrary: cs)
  case Nil
  then show ?case by simp
next
  case (Cons cf cfs)
  have "reg_ok (snd (procComposite cf cs))" using Cons.prems by (rule procComposite_reg_ok)
  from Cons.IH [OF this] show ?case by simp
qed

lemma procField_Inr:
  assumes "procField result d (i, fld) (c, s) = Inr cs'"
  defines "fid \<equiv> (word_of_nat (fst (getOrDefineField (Name fld) s)) :: uint16)"
  defines "s1 \<equiv> snd (getOrDefineField (Name fld) s)"
  shows "i < length (Length result) \<and> i < length (Analyzed result)
    \<and> fst cs' = collateField fid (Name fld) (Length result ! i) (Analyzed result ! i) c
    \<and> (\<exists>s2. (if IsStored fld
                then storeField d fid (encodeFieldType fld) (Value fld) (FieldArrayPositions fld) s1
                else Inr s1) = Inr s2
             \<and> snd cs' = (if IncludeDocValues fld
                           then s2\<lparr>DocValueFields := (DocValueFields s2)(fid \<mapsto> True)\<rparr>
                           else s2))"
proof -
  have g: "getOrDefineField (Name fld) s = (fst (getOrDefineField (Name fld) s), s1)"
    by (simp add: s1_def)
  have l: "i < length (Length result)"
    using assms(1) by (cases "length (Length result) \<le> i") (simp_all add: procField_def split: prod.splits)
  have a: "i < length (Analyzed result)"
    using assms(1) l by (cases "length (Analyzed result) \<le> i") (simp_all add: procField_def split: prod.splits)
  have nl: "(length (Length result) \<le> i) = False" "(length (Analyzed result) \<le> i) = False"
    using l a by simp_all
  let ?m = "if IsStored fld
                then storeField d fid (encodeFieldType fld) (Value fld) (FieldArrayPositions fld) s1
                else Inr s1"
  have "thenE ?m (\<lambda>s2. Inr (collateField fid (Name fld) (Length result ! i) (Analyzed result ! i) c,
                           if IncludeDocValues fld
                           then s2\<lparr>DocValueFields := (DocValueFields s2)(fid \<mapsto> True)\<rparr>
                           else s2)) = Inr cs'"
    using assms(1) nl unfolding procField_def prod.case fst_conv snd_conv fid_def
    by (subst (asm) g) (simp only: prod.case if_False)
  then obtain s2 where "?m = Inr s2"
    "cs' = (collateField fid (Name fld) (Length result ! i) (Analyzed result ! i) c,
                           if IncludeDocValues fld
                           then s2\<lparr>DocValueFields := (DocValueFields s2)(fid \<mapsto> True)\<rparr>
                           else s2)"
    unfolding thenE_Inr_iff by blast
  then show ?thesis using l a by auto
qed

lemma procField_reg:
  assumes "procField result d ifield cs = Inr cs'"
  shows "reg (snd cs') = reg (snd (getOrDefineField (Name (snd ifield)) (snd cs)))"
proof -
  obtain c s where cs: "cs = (c, s)" by (cases cs)
  obtain i fld where ifield: "ifield = (i, fld)" by (cases ifield)
  let ?s1 = "snd (getOrDefineField (Name fld) s)"
  from procField_Inr [OF assms [unfolded cs ifield]] obtain s2 where
    s2: "(if IsStored fld
          then storeField d (word_of_nat (fst (getOrDefineField (Name fld) s))) (encodeFieldType fld)
                 (Value fld) (FieldArrayPositions fld) ?s1
          else Inr ?s1) = Inr s2"
    and c': "snd cs' = (if IncludeDocValues fld
        then s2\<lparr>DocValueFields := (DocValueFields s2)(word_of_nat (fst (getOrDefineField (Name fld) s)) \<mapsto> True)\<rparr> else s2)"
    by blast
  have "reg s2 = reg ?s1" using s2 by (auto split: if_splits dest: storeField_reg)
  moreover have "reg (snd cs') = reg s2" by (simp add: c' reg_def)
  ultimately show ?thesis by (simp add: cs ifield)
qed

lemma procField_reg_ok:
  assumes "procField result d ifield cs = Inr cs'" "reg_ok (snd cs)" shows "reg_ok (snd cs')"
  using reg_ok_cong [OF procField_reg [OF assms(1)]] reg_ok_getOrDefineField [OF assms(2)] by simp

lemma addLocation_Inr:
  assumes "addLocation f p loc s = Inr s'"
  defines "s1 \<equiv> (if LocField loc \<noteq> [] then snd (getOrDefineField (LocField loc) s) else s)"
  defines "locf \<equiv> (if LocField loc \<noteq> [] then word_of_nat (fst (getOrDefineField (LocField loc) s)) else f)"
  shows "p < length (Locfields s1) \<and> p < length (Locstarts s1) \<and> p < length (Locends s1)
      \<and> p < length (Locpos s1) \<and> p < length (Locarraypos s1)
      \<and> s' = s1\<lparr>Locfields := (Locfields s1)[p := Locfields s1 ! p @ [locf]],
                    Locstarts := (Locstarts s1)[p := Locstarts s1 ! p @ [Start loc]],
                    Locends := (Locends s1)[p := Locends s1 ! p @ [End loc]],
                    Locpos := (Locpos s1)[p := Locpos s1 ! p @ [Position loc]],
                    Locarraypos := (Locarraypos s1)[p := Locarraypos s1 ! p @ [ArrayPositions loc]]\<rparr>"
proof -
  have eq: "(if LocField loc \<noteq> []
            then (case getOrDefineField (LocField loc) s of (fid, s') \<Rightarrow> (word_of_nat fid, s'))
            else (f, s)) = (locf, s1)"
    by (simp add: s1_def locf_def split: prod.splits)
  have g: "p < length (Locfields s1) \<and> p < length (Locstarts s1) \<and> p < length (Locends s1)
      \<and> p < length (Locpos s1) \<and> p < length (Locarraypos s1)"
    using assms(1) unfolding addLocation_def eq prod.case by (meson Inl_Inr_False)
  have a: "(if 0 < length (ArrayPositions loc) then ArrayPositions loc else []) = ArrayPositions loc"
    by simp
  show ?thesis using assms(1) g unfolding addLocation_def eq prod.case a by simp
qed

lemma addLocation_reg:
  assumes "addLocation f p loc s = Inr s'"
  shows "reg s' = reg (if LocField loc \<noteq> [] then snd (getOrDefineField (LocField loc) s) else s)"
  using addLocation_Inr [OF assms] by (simp add: reg_def)

lemma addLocation_reg_ok:
  assumes "addLocation f p loc s = Inr s'" "reg_ok s" shows "reg_ok s'"
  using reg_ok_cong [OF addLocation_reg [OF assms(1)]] reg_ok_getOrDefineField [OF assms(2)] assms(2)
  by (simp split: if_splits)

lemma addPosting_reg_ok:
  assumes "addPosting d fl e s = Inr s'" "reg_ok s" shows "reg_ok s'"
proof -
  obtain f t tf where e: "e = (f, t, tf)" by (cases e)
  let ?p = "postingIndex s f t"
  let ?s1 = "s\<lparr>Postings := (Postings s)[?p := insert d (Postings s ! ?p)],
               Freqs := (Freqs s)[?p := Freqs s ! ?p @ [frequency tf]],
               Norms := (Norms s)[?p := Norms s ! ?p @ [InvSqrt (sint (fl f))]]\<rparr>"
  let ?s2 = "?s1\<lparr>PostingsLocs := (PostingsLocs s)[?p := insert d (PostingsLocs s ! ?p)]\<rparr>"
  have "reg ?s1 = reg s" "reg ?s2 = reg s" by (simp_all add: reg_def)
  then have r1: "reg_ok ?s1" "reg_ok ?s2" using assms(2) reg_ok_cong by blast+
  note c = addPosting_Inr [OF assms(1) [unfolded e]]
  show ?thesis
  proof (cases "Locations tf = []")
    case True
    then show ?thesis using c r1 by simp
  next
    case False
    then have 2: "foldE (addLocation f ?p) (Locations tf) ?s2 = Inr s'" using c by simp
    show ?thesis
      by (rule foldE_invariant [where I = reg_ok, OF 2 r1(2)]) (rule addLocation_reg_ok)
  qed
qed

lemma processDocument_reg_ok:
  assumes "processDocument sched result s = Inr s'" "reg_ok s" shows "reg_ok s'"
proof -
  obtain d s0 where a: "addDocument s = (d, s0)" by (cases "addDocument s")
  have r0: "reg_ok s0" using reg_ok_cong [OF addDocument_reg, of s] a assms(2) by simp
  let ?cs1 = "fold procComposite (CompositeFields (Document result)) (([], \<lambda>_. 0), s0)"
  from assms(1) obtain cs where cs: "foldE (procField result d) (enumerate 0 (Fields (Document result))) ?cs1 = Inr cs"
    and fin: "foldE (addPosting d (snd (fst cs))) (sched d (entries (fst (fst cs)))) (snd cs) = Inr s'"
    by (auto simp: processDocument_def a thenE_Inr_iff)
  have "reg_ok (snd ?cs1)" using r0 by (simp add: fold_procComposite_reg_ok)
  then have "reg_ok (snd cs)"
    by (rule foldE_invariant [where I = "\<lambda>a. reg_ok (snd a)", OF cs]) (rule procField_reg_ok)
  then show ?thesis
    by (rule foldE_invariant [where I = reg_ok, OF fin]) (rule addPosting_reg_ok)
qed

lemma sortDictKeys_reg: "reg (sortDictKeys s) = reg s"
  by (simp add: sortDictKeys_def reg_def)

lemma reachable_reg_ok: "reachable s \<Longrightarrow> reg_ok s"
proof (induction rule: reachable.induct)
  case r_identity
  show ?case by (rule reg_ok_identity)
next
  case (r_define s name)
  then show ?case by (simp add: reg_ok_getOrDefineField)
next
  case (r_dict s results s')
  then show ?case by (simp add: initializeDict_reg_ok)
next
  case (r_assemble s sched result s')
  then show ?case by (simp add: processDocument_reg_ok)
next
  case (r_sort s)
  then show ?case by (simp add: reg_ok_cong [OF sortDictKeys_reg])
qed

lemma unat_word16 [simp]: "unat (word_of_nat k :: uint16) = k mod 65536"
  by (simp add: unsigned_of_nat take_bit_eq_mod)

lemma reg_inv_id_at:
  assumes "reg_inv s" "k < length (FieldsInv s)"
  shows "getOrDefineField (FieldsInv s ! k) s = (k mod 65536, s)"
proof -
  have "FieldsMap s (FieldsInv s ! k) = Some (word_of_nat (Suc k))"
    using assms by (simp add: reg_inv_def)
  from getOrDefineField_known [OF this] show ?thesis
    using unat_fieldID [of k] by simp
qed

lemma reg_inv_ids:
  assumes "reg_inv s" "length (FieldsInv s) \<le> 65536" "k < length (FieldsInv s)"
  shows "(name \<in> dom (FieldsMap s) \<and> fst (getOrDefineField name s) = k) \<longleftrightarrow> name = FieldsInv s ! k"
proof
  assume "name = FieldsInv s ! k"
  moreover have "FieldsInv s ! k \<in> dom (FieldsMap s)" using assms by (simp add: reg_inv_def)
  ultimately show "name \<in> dom (FieldsMap s) \<and> fst (getOrDefineField name s) = k"
    using assms(2,3) by (simp add: reg_inv_id_at [OF assms(1,3)])
next
  assume a: "name \<in> dom (FieldsMap s) \<and> fst (getOrDefineField name s) = k"
  then have "name \<in> set (FieldsInv s)" using assms(1) by (simp add: reg_inv_def)
  then obtain j where j: "j < length (FieldsInv s)" "name = FieldsInv s ! j"
    by (auto simp: in_set_conv_nth)
  have "fst (getOrDefineField name s) = j"
    using assms(2) j(1) by (simp add: j(2) reg_inv_id_at [OF assms(1) j(1)])
  then show "name = FieldsInv s ! k" using a j by simp
qed

lemma defineFields_reachable: "reachable s \<Longrightarrow> reachable (defineFields names s)"
  unfolding defineFields_def
  by (induction names arbitrary: s) (auto intro: reachable.r_define)

lemma defineFields_FieldsInv:
  "dom (FieldsMap s) = set (FieldsInv s) \<Longrightarrow> distinct names \<Longrightarrow> set names \<inter> set (FieldsInv s) = {}
    \<Longrightarrow> FieldsInv (defineFields names s) = FieldsInv s @ names"
proof (induction names arbitrary: s)
  case Nil
  then show ?case by (simp add: defineFields_def)
next
  case (Cons name names)
  have n: "FieldsMap s name = None" using Cons.prems by auto
  let ?s = "snd (getOrDefineField name s)"
  have 1: "dom (FieldsMap ?s) = set (FieldsInv ?s)" "FieldsInv ?s = FieldsInv s @ [name]"
    using Cons.prems(1) by (auto simp: getOrDefineField_new [OF n])
  have "FieldsInv (defineFields names ?s) = FieldsInv ?s @ names"
    using Cons.prems 1 by (intro Cons.IH) auto
  then show ?case by (simp add: 1 defineFields_def)
qed

lemma fieldName_inj: "inj fieldName"
  by (rule injI) (metis fieldName_def length_replicate old.nat.inject)

lemma fieldName_not_id: "fieldName n \<noteq> ''_id''"
  by (simp add: fieldName_def)

lemma manyFields_FieldsInv: "FieldsInv manyFields = ''_id'' # map fieldName [0..<65536]"
proof -
  let ?s = "snd (getOrDefineField ''_id'' New)"
  have s: "FieldsInv ?s = [''_id'']" "dom (FieldsMap ?s) = set (FieldsInv ?s)"
    by (simp_all add: getOrDefineField_def New_def)
  have "FieldsInv manyFields = FieldsInv ?s @ map fieldName [0..<65536]"
    unfolding manyFields_def
    by (rule defineFields_FieldsInv [OF s(2)])
       (auto simp: s(1) distinct_map fieldName_not_id fieldName_not_id [symmetric]
          intro: inj_on_subset [OF fieldName_inj])
  then show ?thesis by (simp add: s(1))
qed

subsection \<open>The example batch\<close>

lemmas build_defs =
  NewFromAnalyzedDocs_def initializeDict_def dictResult_def dictField_def dictComposite_def
  dictProcessField_def dictTerm_def allocPostings_def getOrDefineField_def New_def
  processDocument_def addDocument_def procField_def procComposite_def collateField_def
  storeField_def addPosting_def addLocation_def postingIndex_def entries_def sortDictKeys_def
  MergeAll_def mergeTerm_def slot_def enumerate_eq_zip foldE_Cons

lemmas example_defs =
  in_order_def example_batch_def tf_dog_cat_def tf_dog_def body_field_def

lemma example_run: "NewFromAnalyzedDocs in_order example_batch = Inr example_segment"
  by (simp add: build_defs example_defs example_segment_def Let_def) (simp add: eval_nat_numeral)

lemma example_dict:
  "initializeDict example_batch (snd (getOrDefineField ''_id'' New)) = Inr example_dict_segment"
  by (simp add: build_defs example_defs example_dict_segment_def Let_def) (simp add: eval_nat_numeral)

lemma example_assembly:
  "foldE (processDocument in_order) example_batch example_dict_segment
     = Inr (example_segment\<lparr>DictKeys := [[], [''dog'', ''cat''], [''dog'', ''cat'']]\<rparr>)"
  by (simp add: build_defs example_defs example_dict_segment_def example_segment_def Let_def)

subsection \<open>Postings, locations and stored values through the steps\<close>

lemma getOrDefineField_views:
  "post (snd (getOrDefineField name s)) = post s"
  "locs (snd (getOrDefineField name s)) = locs s"
  "stor (snd (getOrDefineField name s)) = stor s"
  by (rule getOrDefineField_cases [of s name]; simp add: post_def locs_def stor_def)+

lemma loc_consistent_cong: "post s' = post s \<Longrightarrow> locs s' = locs s \<Longrightarrow> loc_consistent s' = loc_consistent s"
  by (simp add: post_def locs_def loc_consistent_def)

lemma addLocation_post: "addLocation f p loc s = Inr s' \<Longrightarrow> post s' = post s"
  using getOrDefineField_views(1) [of "LocField loc" s]
  by (auto dest!: addLocation_Inr simp: post_def)

lemma addLocation_stor: "addLocation f p loc s = Inr s' \<Longrightarrow> stor s' = stor s"
  using getOrDefineField_views(3) [of "LocField loc" s]
  by (auto dest!: addLocation_Inr simp: stor_def)

lemma addLocation_loc_consistent:
  assumes "addLocation f p loc s = Inr s'" "loc_consistent s" shows "loc_consistent s'"
proof -
  define s1 where "s1 = (if LocField loc \<noteq> [] then snd (getOrDefineField (LocField loc) s) else s)"
  define locf where "locf = (if LocField loc \<noteq> [] then word_of_nat (fst (getOrDefineField (LocField loc) s)) else f)"
  have v: "post s1 = post s" "locs s1 = locs s" by (simp_all add: s1_def getOrDefineField_views)
  then have c: "loc_consistent s1" using assms(2) loc_consistent_cong by blast
  note a = addLocation_Inr [OF assms(1), folded s1_def locf_def]
  from a have s': "Postings s' = Postings s1" "PostingsLocs s' = PostingsLocs s1"
    "Locfields s' = (Locfields s1)[p := Locfields s1 ! p @ [locf]]"
    "Locstarts s' = (Locstarts s1)[p := Locstarts s1 ! p @ [Start loc]]"
    "Locends s' = (Locends s1)[p := Locends s1 ! p @ [End loc]]"
    "Locpos s' = (Locpos s1)[p := Locpos s1 ! p @ [Position loc]]"
    "Locarraypos s' = (Locarraypos s1)[p := Locarraypos s1 ! p @ [ArrayPositions loc]]"
    by simp_all
  from a have g: "p < length (Locfields s1)" "p < length (Locstarts s1)" "p < length (Locends s1)"
    "p < length (Locpos s1)" "p < length (Locarraypos s1)" by simp_all
  show ?thesis using c g unfolding loc_consistent_def s'
    by (simp add: nth_list_update)
qed

lemma addPosting_loc_consistent:
  assumes "addPosting d fl e s = Inr s'" "loc_consistent s" shows "loc_consistent s'"
proof -
  obtain f t tf where e: "e = (f, t, tf)" by (cases e)
  define p where "p = postingIndex s f t"
  define s1 where "s1 = s\<lparr>Postings := (Postings s)[p := insert d (Postings s ! p)],
               Freqs := (Freqs s)[p := Freqs s ! p @ [frequency tf]],
               Norms := (Norms s)[p := Norms s ! p @ [InvSqrt (sint (fl f))]]\<rparr>"
  define s2 where "s2 = s1\<lparr>PostingsLocs := (PostingsLocs s)[p := insert d (PostingsLocs s ! p)]\<rparr>"
  note c = addPosting_Inr [OF assms(1) [unfolded e], folded p_def, folded s1_def, folded s2_def]
  have c1: "loc_consistent s1" using assms(2) c
    by (auto simp: loc_consistent_def s1_def nth_list_update)
  have c2: "loc_consistent s2" using assms(2) c
    by (auto simp: loc_consistent_def s1_def s2_def nth_list_update)
  show ?thesis
  proof (cases "Locations tf = []")
    case True
    then show ?thesis using c c1 by simp
  next
    case False
    then have 2: "foldE (addLocation f p) (Locations tf) s2 = Inr s'" using c by simp
    show ?thesis
      by (rule foldE_invariant [where I = loc_consistent, OF 2 c2]) (rule addLocation_loc_consistent)
  qed
qed

lemma addDocument_views:
  "post (snd (addDocument s)) = post s" "locs (snd (addDocument s)) = locs s"
  by (simp_all add: addDocument_def post_def locs_def)

lemma procComposite_views:
  "post (snd (procComposite cf cs)) = post (snd cs)" "locs (snd (procComposite cf cs)) = locs (snd cs)"
  "stor (snd (procComposite cf cs)) = stor (snd cs)"
  by (cases cs; simp add: procComposite_def getOrDefineField_views split: prod.splits;
      metis getOrDefineField_views snd_conv)+

lemma fold_procComposite_views:
  "post (snd (fold procComposite cfs cs)) = post (snd cs)"
  "locs (snd (fold procComposite cfs cs)) = locs (snd cs)"
  "stor (snd (fold procComposite cfs cs)) = stor (snd cs)"
  by (induction cfs arbitrary: cs) (simp_all add: procComposite_views)

lemma storeField_views:
  "storeField d f t v p s = Inr s' \<Longrightarrow> post s' = post s"
  "storeField d f t v p s = Inr s' \<Longrightarrow> locs s' = locs s"
  by (auto simp: storeField_def post_def locs_def split: if_splits)

lemma procField_views:
  assumes "procField result d ifield cs = Inr cs'"
  shows "post (snd cs') = post (snd cs)" "locs (snd cs') = locs (snd cs)"
proof -
  obtain c s where cs: "cs = (c, s)" by (cases cs)
  obtain i fld where ifield: "ifield = (i, fld)" by (cases ifield)
  define s1 where "s1 = snd (getOrDefineField (Name fld) s)"
  define fid :: uint16 where "fid = word_of_nat (fst (getOrDefineField (Name fld) s))"
  from procField_Inr [OF assms [unfolded cs ifield], folded s1_def fid_def] obtain s2 where
    s2: "(if IsStored fld
          then storeField d fid (encodeFieldType fld) (Value fld) (FieldArrayPositions fld) s1
          else Inr s1) = Inr s2"
    and c': "snd cs' = (if IncludeDocValues fld
        then s2\<lparr>DocValueFields := (DocValueFields s2)(fid \<mapsto> True)\<rparr> else s2)"
    by blast
  have 1: "post s1 = post s" "locs s1 = locs s" by (simp_all add: s1_def getOrDefineField_views)
  have 2: "post s2 = post s1" "locs s2 = locs s1"
    using s2 by (auto split: if_splits dest: storeField_views)
  have 3: "post (snd cs') = post s2" "locs (snd cs') = locs s2"
    by (simp_all add: c' post_def locs_def)
  show "post (snd cs') = post (snd cs)" "locs (snd cs') = locs (snd cs)"
    using 1 2 3 by (simp_all add: cs)
qed

lemma processDocument_loc_consistent:
  assumes "processDocument sched result s = Inr s'" "loc_consistent s" shows "loc_consistent s'"
proof -
  obtain d s0 where a: "addDocument s = (d, s0)" by (cases "addDocument s")
  have r0: "loc_consistent s0"
    using loc_consistent_cong [OF addDocument_views, of s] a assms(2) by simp
  let ?cs1 = "fold procComposite (CompositeFields (Document result)) (([], \<lambda>_. 0), s0)"
  from assms(1) obtain cs where cs: "foldE (procField result d) (enumerate 0 (Fields (Document result))) ?cs1 = Inr cs"
    and fin: "foldE (addPosting d (snd (fst cs))) (sched d (entries (fst (fst cs)))) (snd cs) = Inr s'"
    by (auto simp: processDocument_def a thenE_Inr_iff)
  have "loc_consistent (snd ?cs1)"
    using r0 loc_consistent_cong [OF fold_procComposite_views(1,2)] by simp
  then have "loc_consistent (snd cs)"
    by (rule foldE_invariant [where I = "\<lambda>a. loc_consistent (snd a)", OF cs])
       (use loc_consistent_cong [OF procField_views] in blast)
  then show ?thesis
    by (rule foldE_invariant [where I = loc_consistent, OF fin]) (rule addPosting_loc_consistent)
qed

lemma initializeDict_loc_consistent:
  "initializeDict results s = Inr s' \<Longrightarrow> loc_consistent s'"
  by (auto simp: initializeDict_def thenE_Inr_iff allocPostings_def loc_consistent_def)

lemma sortDictKeys_views:
  "post (sortDictKeys s) = post s" "locs (sortDictKeys s) = locs s" "stor (sortDictKeys s) = stor s"
  by (simp_all add: sortDictKeys_def post_def locs_def stor_def)

lemma addPosting_sets:
  assumes "addPosting d fl (f, t, tf) s = Inr s'"
  shows "Postings s' = (Postings s)[postingIndex s f t := insert d (Postings s ! postingIndex s f t)]"
    "PostingsLocs s' = (if Locations tf = [] then PostingsLocs s
       else (PostingsLocs s)[postingIndex s f t := insert d (PostingsLocs s ! postingIndex s f t)])"
proof -
  define p where "p = postingIndex s f t"
  define s1 where "s1 = s\<lparr>Postings := (Postings s)[p := insert d (Postings s ! p)],
               Freqs := (Freqs s)[p := Freqs s ! p @ [frequency tf]],
               Norms := (Norms s)[p := Norms s ! p @ [InvSqrt (sint (fl f))]]\<rparr>"
  define s2 where "s2 = s1\<lparr>PostingsLocs := (PostingsLocs s)[p := insert d (PostingsLocs s ! p)]\<rparr>"
  note c = addPosting_Inr [OF assms(1), folded p_def, folded s1_def, folded s2_def]
  have "post s' = (if Locations tf = [] then post s1 else post s2)"
  proof (cases "Locations tf = []")
    case True
    then show ?thesis using c by simp
  next
    case False
    then have 2: "foldE (addLocation f p) (Locations tf) s2 = Inr s'" using c by simp
    have "post s' = post s2"
      by (rule foldE_invariant [where I = "\<lambda>a. post a = post s2", OF 2])
         (auto dest: addLocation_post)
    then show ?thesis using False by simp
  qed
  then show "Postings s' = (Postings s)[postingIndex s f t := insert d (Postings s ! postingIndex s f t)]"
    "PostingsLocs s' = (if Locations tf = [] then PostingsLocs s
       else (PostingsLocs s)[postingIndex s f t := insert d (PostingsLocs s ! postingIndex s f t)])"
    by (auto simp: post_def s1_def s2_def p_def split: if_splits)
qed

subsection \<open>The dictionary as an ordered list of pairs\<close>

lemma set_see [simp]: "set (see x xs) = insert x (set xs)"
  by (auto simp: see_def)

lemma distinct_see [simp]: "distinct (see x xs) = distinct xs"
  by (auto simp: see_def)

lemma set_fold_see [simp]: "set (fold see ys xs) = set ys \<union> set xs"
  by (induction ys arbitrary: xs) auto

lemma distinct_fold_see [simp]: "distinct (fold see ys xs) = distinct xs"
  by (induction ys arbitrary: xs) auto

lemma firstSeen_append: "firstSeen (xs @ ys) = fold see ys (firstSeen xs)"
  by (simp add: firstSeen_def)

lemma set_firstSeen [simp]: "set (firstSeen xs) = set xs"
  by (simp add: firstSeen_def)

lemma distinct_firstSeen [simp]: "distinct (firstSeen xs)"
  by (simp add: firstSeen_def)

lemma itemPairs_append: "itemPairs g (xs @ ys) = itemPairs g xs @ itemPairs g ys"
  by (simp add: itemPairs_def)

lemma itemPairs_cong:
  "(\<And>name. name \<in> fst ` set items \<Longrightarrow> g name = h name) \<Longrightarrow> itemPairs g items = itemPairs h items"
  unfolding itemPairs_def by (rule arg_cong [where f = concat]) (auto intro!: map_cong)

text \<open>one term\<close>

lemma unat_lt_65536: "unat (w :: uint16) < 65536"
  using unsigned_less [of w, where 'a = nat] by simp

lemma word_of_nat_unat16: "word_of_nat (unat (w :: uint16)) = w"
  by simp

lemma dict_rep_lookup:
  assumes "dict_rep sp s" "unat f < length (Dicts s)"
  shows "(Dicts s ! unat f) t \<noteq> None \<longleftrightarrow> (f, t) \<in> set sp"
proof
  assume "(Dicts s ! unat f) t \<noteq> None"
  then have "(word_of_nat (unat f) :: uint16, t) \<in> set sp"
    using assms unfolding dict_rep_def by blast
  then show "(f, t) \<in> set sp" by simp
next
  assume "(f, t) \<in> set sp"
  then obtain i where "i < length sp" "sp ! i = (f, t)" by (auto simp: in_set_conv_nth)
  then show "(Dicts s ! unat f) t \<noteq> None" using assms(1) by (auto simp: dict_rep_def)
qed

lemma dictTerm_Inr:
  assumes "dictTerm f kv (n, s) = Inr ns'" "length (DictKeys s) = length (Dicts s)"
  shows "unat f < length (Dicts s)
    \<and> ns' = (if (Dicts s ! unat f) (fst kv) \<noteq> None then (n, s)
             else (Suc n, s\<lparr>Dicts := (Dicts s)[unat f := (Dicts s ! unat f)(fst kv \<mapsto> Suc n)],
                            DictKeys := (DictKeys s)[unat f := DictKeys s ! unat f @ [fst kv]]\<rparr>))"
proof -
  have u: "unat f < length (Dicts s)"
    using assms(1) by (cases "length (Dicts s) \<le> unat f") (simp_all add: dictTerm_def)
  then show ?thesis using assms by (auto simp: dictTerm_def split: if_splits)
qed

lemma dictTerm_total:
  assumes "unat f < length (Dicts s)" "length (DictKeys s) = length (Dicts s)"
  shows "dictTerm f kv (n, s) = Inr (if (Dicts s ! unat f) (fst kv) \<noteq> None then (n, s)
             else (Suc n, s\<lparr>Dicts := (Dicts s)[unat f := (Dicts s ! unat f)(fst kv \<mapsto> Suc n)],
                            DictKeys := (DictKeys s)[unat f := DictKeys s ! unat f @ [fst kv]]\<rparr>))"
  using assms by (simp add: dictTerm_def)

lemma dict_rep_new_term:
  assumes d: "dict_rep sp s" and u: "unat f < length (Dicts s)" and new: "(f, t) \<notin> set sp"
  shows "dict_rep (sp @ [(f, t)])
           (s\<lparr>Dicts := (Dicts s)[unat f := (Dicts s ! unat f)(t \<mapsto> Suc (length sp))],
              DictKeys := (DictKeys s)[unat f := DictKeys s ! unat f @ [t]]\<rparr>)"
proof -
  let ?s = "s\<lparr>Dicts := (Dicts s)[unat f := (Dicts s ! unat f)(t \<mapsto> Suc (length sp))],
              DictKeys := (DictKeys s)[unat f := DictKeys s ! unat f @ [t]]\<rparr>"
  let ?sp = "sp @ [(f, t)]"
  have 1: "distinct ?sp" using d new by (simp add: dict_rep_def)
  have 2: "unat (fst (?sp ! i)) < length (Dicts ?s)
            \<and> (Dicts ?s ! unat (fst (?sp ! i))) (snd (?sp ! i)) = Some (Suc i)"
    if "i < length ?sp" for i
  proof (cases "i < length sp")
    case True
    then have a: "unat (fst (sp ! i)) < length (Dicts s)"
        "(Dicts s ! unat (fst (sp ! i))) (snd (sp ! i)) = Some (Suc i)"
      using d by (simp_all add: dict_rep_def)
    have "sp ! i \<noteq> (f, t)" using new True nth_mem by metis
    then have "\<not> (unat (fst (sp ! i)) = unat f \<and> snd (sp ! i) = t)"
      by (metis prod.collapse unsigned_word_eqI)
    then show ?thesis using True a u by (auto simp: nth_append nth_list_update)
  next
    case False
    then have "i = length sp" using that by simp
    then show ?thesis using u by simp
  qed
  have 3: "g < 65536 \<and> (word_of_nat g, t') \<in> set ?sp"
    if "g < length (Dicts ?s)" "(Dicts ?s ! g) t' \<noteq> None" for g t'
  proof (cases "g = unat f \<and> t' = t")
    case True
    then show ?thesis using unat_lt_65536 [of f] by simp
  next
    case False
    then have "(Dicts s ! g) t' \<noteq> None" using that u by (auto simp: nth_list_update split: if_splits)
    then show ?thesis using d that(1) by (simp add: dict_rep_def)
  qed
  have 4: "length (DictKeys ?s) = length (Dicts ?s)" using d by (simp add: dict_rep_def)
  have 5: "DictKeys ?s ! g = map snd (filter (\<lambda>p. unat (fst p) = g) ?sp)"
    if "g < length (DictKeys ?s)" for g
  proof -
    have "DictKeys s ! g = map snd (filter (\<lambda>p. unat (fst p) = g) sp)"
      using d that by (simp add: dict_rep_def)
    then show ?thesis using that by (auto simp: nth_list_update)
  qed
  show ?thesis unfolding dict_rep_def using 1 2 3 4 5 by blast
qed

lemma dictTerm_dict_rep:
  assumes "dictTerm f kv (n, s) = Inr (n', s')" "dict_rep sp s" "n = length sp"
  shows "dict_rep (see (f, fst kv) sp) s' \<and> n' = length (see (f, fst kv) sp) \<and> reg s' = reg s
     \<and> post s' = post s \<and> locs s' = locs s \<and> stor s' = stor s"
proof -
  have l: "length (DictKeys s) = length (Dicts s)" using assms(2) by (simp add: dict_rep_def)
  note a = dictTerm_Inr [OF assms(1) l]
  then have u: "unat f < length (Dicts s)" by simp
  show ?thesis
  proof (cases "(f, fst kv) \<in> set sp")
    case True
    then have "(Dicts s ! unat f) (fst kv) \<noteq> None" using dict_rep_lookup [OF assms(2) u] by simp
    then show ?thesis using a True assms by (simp add: see_def)
  next
    case False
    then have n: "(Dicts s ! unat f) (fst kv) = None" using dict_rep_lookup [OF assms(2) u] by blast
    have "dict_rep (sp @ [(f, fst kv)]) s'"
      using dict_rep_new_term [OF assms(2) u False] a n assms(3) by simp
    then show ?thesis using a n False assms(3)
      by (simp add: see_def reg_def post_def locs_def stor_def)
  qed
qed

lemma dictProcessField_dict_rep:
  assumes "dictProcessField f tf (n, s) = Inr (n', s')" "dict_rep sp s" "n = length sp"
  shows "dict_rep (fold see (map (\<lambda>kv. (f, fst kv)) tf) sp) s'
     \<and> n' = length (fold see (map (\<lambda>kv. (f, fst kv)) tf) sp) \<and> reg s' = reg s
     \<and> post s' = post s \<and> locs s' = locs s \<and> stor s' = stor s"
  using assms unfolding dictProcessField_def
proof (induction tf arbitrary: n s sp)
  case Nil
  then show ?case by simp
next
  case (Cons kv tf)
  from Cons.prems(1) obtain n1 s1 where 1: "dictTerm f kv (n, s) = Inr (n1, s1)"
    and 2: "foldE (dictTerm f) tf (n1, s1) = Inr (n', s')"
    by (auto simp: foldE_Cons_Inr)
  note a = dictTerm_dict_rep [OF 1 Cons.prems(2,3)]
  from Cons.IH [OF 2, of "see (f, fst kv) sp"] a show ?case by simp
qed

subsection \<open>Registry extension and the dictionary pass\<close>

lemma ext_refl: "ext s s"
  unfolding ext_def by (auto intro: exI [of _ 0])

lemma ext_trans: "ext s s' \<Longrightarrow> ext s' s'' \<Longrightarrow> ext s s''"
  unfolding ext_def
  by (auto simp: replicate_add [symmetric] simp del: replicate_add)

lemma ext_same:
  "FieldsMap s' = FieldsMap s \<Longrightarrow> Dicts s' = Dicts s \<Longrightarrow> DictKeys s' = DictKeys s \<Longrightarrow> ext s s'"
  unfolding ext_def by (auto intro: exI [of _ 0])

lemma ext_getOrDefineField: "ext s (snd (getOrDefineField name s))"
proof (rule getOrDefineField_cases [of s name])
  fix w assume "getOrDefineField name s = (unat (w - 1), s)"
  then show ?thesis by (simp add: ext_refl)
next
  assume n: "FieldsMap s name = None"
  show ?thesis unfolding getOrDefineField_new [OF n] ext_def
    using n by (auto intro: exI [of _ 1])
qed

lemma ext_length: "ext s s' \<Longrightarrow> length (Dicts s) \<le> length (Dicts s')"
  by (auto simp: ext_def)

lemma ext_nth: "ext s s' \<Longrightarrow> f < length (Dicts s) \<Longrightarrow> Dicts s' ! f = Dicts s ! f"
  by (auto simp: ext_def nth_append)

lemma ext_nth_new: "ext s s' \<Longrightarrow> length (Dicts s) \<le> f \<Longrightarrow> f < length (Dicts s') \<Longrightarrow> Dicts s' ! f = Map.empty"
  by (auto simp: ext_def nth_append)

lemma dict_rep_ext:
  assumes d: "dict_rep sp s" and e: "ext s s'"
  shows "dict_rep sp s'"
proof -
  from e obtain k where k: "Dicts s' = Dicts s @ replicate k Map.empty"
    "DictKeys s' = DictKeys s @ replicate k []" by (auto simp: ext_def)
  have l: "length (DictKeys s) = length (Dicts s)" using d by (simp add: dict_rep_def)
  have 2: "unat (fst (sp ! i)) < length (Dicts s')
       \<and> (Dicts s' ! unat (fst (sp ! i))) (snd (sp ! i)) = Some (Suc i)" if "i < length sp" for i
    using d that by (auto simp: dict_rep_def k nth_append)
  have 3: "f < 65536 \<and> (word_of_nat f, t) \<in> set sp"
    if "f < length (Dicts s')" "(Dicts s' ! f) t \<noteq> None" for f t
  proof (cases "f < length (Dicts s)")
    case True
    then show ?thesis using d that by (simp add: dict_rep_def k nth_append)
  next
    case False
    then show ?thesis using that by (simp add: k nth_append)
  qed
  have 5: "DictKeys s' ! f = map snd (filter (\<lambda>p. unat (fst p) = f) sp)"
    if "f < length (DictKeys s')" for f
  proof (cases "f < length (Dicts s)")
    case True
    then show ?thesis using d l by (simp add: dict_rep_def k nth_append)
  next
    case False
    have "filter (\<lambda>p. unat (fst p) = f) sp = []"
    proof (rule filter_False, rule ballI)
      fix p assume "p \<in> set sp"
      then obtain i where "i < length sp" "sp ! i = p" by (auto simp: in_set_conv_nth)
      then have "unat (fst p) < length (Dicts s)" using d by (auto simp: dict_rep_def)
      then show "\<not> unat (fst p) = f" using False by simp
    qed
    then show ?thesis using False that l by (simp add: k nth_append)
  qed
  show ?thesis unfolding dict_rep_def using d 2 3 5 l k
    by (auto simp: dict_rep_def)
qed

text \<open>field ids\<close>

lemma fst_getOrDefineField_lt: "fst (getOrDefineField name s) < 65536"
  by (rule getOrDefineField_cases [of s name]) (simp_all add: unat_lt_65536)

lemma unat_fieldIDOf: "unat (fieldIDOf s name) = fst (getOrDefineField name s)"
  using fst_getOrDefineField_lt [of name s] by (simp add: fieldIDOf_def)

lemma fieldIDOf_known: "FieldsMap s name = Some w \<Longrightarrow> fieldIDOf s name = w - 1"
  by (simp add: fieldIDOf_def getOrDefineField_known)

lemma fieldIDOf_ext:
  "ext s s' \<Longrightarrow> name \<in> dom (FieldsMap s) \<Longrightarrow> fieldIDOf s' name = fieldIDOf s name"
  by (auto simp: ext_def fieldIDOf_known)

lemma word16_of_nat_mod: "(word_of_nat (n mod 65536) :: uint16) = word_of_nat n"
proof -
  have "unat (word_of_nat (n mod 65536) :: uint16) = unat (word_of_nat n :: uint16)" by simp
  then show ?thesis by (simp only: word_unat_eq_iff)
qed

lemma fieldIDOf_registered:
  "fieldIDOf (snd (getOrDefineField name s)) name = fieldIDOf s name"
proof (rule getOrDefineField_cases [of s name])
  fix w assume "getOrDefineField name s = (unat (w - 1), s)"
  then show ?thesis by simp
next
  assume n: "FieldsMap s name = None"
  have "FieldsMap (snd (getOrDefineField name s)) name = Some (word_of_nat (Suc (length (FieldsInv s))))"
    by (simp add: getOrDefineField_new [OF n])
  from fieldIDOf_known [OF this] show ?thesis
    by (simp add: fieldIDOf_def getOrDefineField_new [OF n] word16_of_nat_mod)
qed

lemma registered_dom: "name \<in> dom (FieldsMap (snd (getOrDefineField name s)))"
  by (rule getOrDefineField_cases [of s name]) auto

lemma fieldIDOf_in_range:
  assumes "reg_inv s"
  shows "unat (fieldIDOf s name) < length (Dicts (snd (getOrDefineField name s)))"
proof (rule getOrDefineField_cases [of s name])
  fix w assume w: "FieldsMap s name = Some w" "getOrDefineField name s = (unat (w - 1), s)"
  then have "name \<in> set (FieldsInv s)" using assms by (auto simp: reg_inv_def)
  then obtain k where k: "k < length (FieldsInv s)" "name = FieldsInv s ! k"
    by (auto simp: in_set_conv_nth)
  have "fst (getOrDefineField name s) = k mod 65536" by (simp add: k(2) reg_inv_id_at [OF assms k(1)])
  moreover have "k mod 65536 \<le> k" by simp
  ultimately show ?thesis using k(1) assms w(2) by (simp add: unat_fieldIDOf reg_inv_def)
next
  assume n: "FieldsMap s name = None"
  have "length (FieldsInv s) mod 65536 \<le> length (FieldsInv s)" by simp
  then show ?thesis using assms by (simp add: unat_fieldIDOf getOrDefineField_new [OF n] reg_inv_def)
qed

lemma fieldIDOf_reg: "reg s' = reg s \<Longrightarrow> fieldIDOf s' = fieldIDOf s"
  by (rule ext) (simp add: fieldIDOf_def getOrDefineField_def reg_def split: option.splits)

lemma reg_inv_cong: "reg s' = reg s \<Longrightarrow> reg_inv s' = reg_inv s"
  by (simp add: reg_def reg_inv_def)

lemma reg_FieldsMap: "reg s' = reg s \<Longrightarrow> FieldsMap s' = FieldsMap s"
  by (simp add: reg_def)

text \<open>one item\<close>

lemma dictItem_dict_pass:
  assumes "dictItem item ns = Inr ns'" "dict_pass seen ns"
  shows "dict_pass (seen @ [item]) ns'"
proof -
  obtain n s where ns: "ns = (n, s)" by (cases ns)
  obtain n' s' where ns': "ns' = (n', s')" by (cases ns')
  obtain name tf where item: "item = (name, tf)" by (cases item)
  define s1 where "s1 = snd (getOrDefineField name s)"
  define f where "f = fieldIDOf s name"
  define sp where "sp = firstSeen (itemPairs (fieldIDOf s) seen)"
  from assms(2) have r: "reg_inv s" and dn: "fst ` set seen \<subseteq> dom (FieldsMap s)"
    and d: "dict_rep sp s" and n: "n = length sp"
    by (simp_all add: dict_pass_def ns sp_def)
  have e: "ext s s1" unfolding s1_def by (rule ext_getOrDefineField)
  have r1: "reg_inv s1" unfolding s1_def using r by (rule reg_inv_getOrDefineField)
  have d1: "dict_rep sp s1" using d e by (rule dict_rep_ext)
  from assms(1) have run: "dictProcessField f tf (n, s1) = Inr (n', s')"
    by (simp add: dictItem_def ns ns' item f_def s1_def)
  note a = dictProcessField_dict_rep [OF run d1 n]
  then have rs: "reg s' = reg s1" by simp
  have fid: "fieldIDOf s' = fieldIDOf s1" using rs by (rule fieldIDOf_reg)
  have f1: "fieldIDOf s1 name = f" unfolding s1_def f_def by (rule fieldIDOf_registered)
  have old: "fieldIDOf s1 nm = fieldIDOf s nm" if "nm \<in> fst ` set seen" for nm
    using fieldIDOf_ext [OF e] dn that by blast
  have pairs: "itemPairs (fieldIDOf s') (seen @ [item]) = itemPairs (fieldIDOf s) seen @ map (\<lambda>kv. (f, fst kv)) tf"
    unfolding itemPairs_append fid
    using itemPairs_cong [of seen "fieldIDOf s1" "fieldIDOf s", OF old]
    by (simp add: itemPairs_def item f1)
  have dom': "fst ` set (seen @ [item]) \<subseteq> dom (FieldsMap s')"
  proof -
    have "dom (FieldsMap s) \<subseteq> dom (FieldsMap s1)" using e by (auto simp: ext_def)
    moreover have "name \<in> dom (FieldsMap s1)" unfolding s1_def by (rule registered_dom)
    ultimately show ?thesis using dn reg_FieldsMap [OF rs] by (auto simp: item)
  qed
  show ?thesis
    using a r1 reg_inv_cong [OF rs] dom'
    by (simp add: dict_pass_def ns' pairs firstSeen_append sp_def)
qed

lemma dictItem_views:
  assumes "dictItem item ns = Inr ns'" "dict_pass seen ns"
  shows "post (snd ns') = post (snd ns)" "locs (snd ns') = locs (snd ns)" "stor (snd ns') = stor (snd ns)"
proof -
  obtain n s where ns: "ns = (n, s)" by (cases ns)
  obtain n' s' where ns': "ns' = (n', s')" by (cases ns')
  obtain name tf where item: "item = (name, tf)" by (cases item)
  define s1 where "s1 = snd (getOrDefineField name s)"
  define sp where "sp = firstSeen (itemPairs (fieldIDOf s) seen)"
  from assms(2) have d: "dict_rep sp s" and n: "n = length sp"
    by (simp_all add: dict_pass_def ns sp_def)
  have e: "ext s s1" unfolding s1_def by (rule ext_getOrDefineField)
  have d1: "dict_rep sp s1" using d e by (rule dict_rep_ext)
  from assms(1) have run: "dictProcessField (fieldIDOf s name) tf (n, s1) = Inr (n', s')"
    by (simp add: dictItem_def ns ns' item s1_def)
  note a = dictProcessField_dict_rep [OF run d1 n]
  show "post (snd ns') = post (snd ns)" "locs (snd ns') = locs (snd ns)" "stor (snd ns') = stor (snd ns)"
    using a by (simp_all add: ns ns' s1_def getOrDefineField_views)
qed

subsection \<open>What initializeDict returns\<close>

lemma foldE_cong:
  "(\<And>x a. x \<in> set xs \<Longrightarrow> f x a = g x a) \<Longrightarrow> foldE f xs s = foldE g xs s"
  by (induction xs arbitrary: s) (auto simp: foldE_Cons thenE_def split: sum.splits)

lemma dictComposite_item: "dictComposite cf ns = dictItem (CompositeName cf, snd (Analyze cf)) ns"
  by (cases ns) (simp add: dictComposite_def dictItem_def fieldIDOf_def split: prod.splits)

lemma dictField_item:
  "dictField result ifield ns =
     (if length (Analyzed result) \<le> fst ifield then Inl Analyzed_index_out_of_range
      else dictItem (Name (snd ifield), Analyzed result ! fst ifield) ns)"
  by (cases ns) (simp add: dictField_def dictItem_def fieldIDOf_def split: prod.splits)

lemma dictResult_items:
  assumes "dictResult result ns = Inr ns'"
  shows "foldE dictItem (resultItems result) ns = Inr ns'"
proof -
  from assms obtain m where m: "foldE dictComposite (CompositeFields (Document result)) ns = Inr m"
    and n: "foldE (dictField result) (enumerate 0 (Fields (Document result))) m = Inr ns'"
    by (auto simp: dictResult_def thenE_Inr_iff)
  have 1: "foldE (\<lambda>cf. dictItem (CompositeName cf, snd (Analyze cf))) (CompositeFields (Document result)) ns = Inr m"
    using m by (simp add: dictComposite_item [abs_def])
  have 2: "foldE (\<lambda>ifield. dictItem (Name (snd ifield), Analyzed result ! fst ifield))
             (enumerate 0 (Fields (Document result))) m = Inr ns'"
    by (rule foldE_mono [OF n]) (simp add: dictField_item split: if_splits)
  show ?thesis unfolding resultItems_def foldE_append foldE_map using 1 2 by simp
qed

lemma dictResult_total:
  assumes "length (Fields (Document result)) \<le> length (Analyzed result)"
  shows "dictResult result ns = foldE dictItem (resultItems result) ns"
proof -
  have "foldE (dictField result) (enumerate 0 (Fields (Document result)))
      = foldE (\<lambda>ifield. dictItem (Name (snd ifield), Analyzed result ! fst ifield))
             (enumerate 0 (Fields (Document result)))"
    by (rule ext, rule foldE_cong) (use assms in \<open>auto simp: dictField_item in_set_enumerate_eq\<close>)
  then show ?thesis
    unfolding resultItems_def foldE_append foldE_map dictResult_def
    by (simp add: dictComposite_item [abs_def])
qed

lemma dict_loop_items:
  assumes "foldE dictResult results ns = Inr ns'"
  shows "foldE dictItem (concat (map resultItems results)) ns = Inr ns'"
  unfolding foldE_concat foldE_map
  by (rule foldE_mono [OF assms]) (rule dictResult_items)

lemma dict_loop_total:
  assumes "\<forall>r\<in>set results. length (Fields (Document r)) \<le> length (Analyzed r)"
  shows "foldE dictResult results ns = foldE dictItem (concat (map resultItems results)) ns"
  unfolding foldE_concat foldE_map
  by (rule foldE_cong) (use assms dictResult_total in auto)

lemma dict_items_pass:
  assumes "foldE dictItem items ns = Inr ns'" "dict_pass seen ns"
  shows "dict_pass (seen @ items) ns' \<and> post (snd ns') = post (snd ns)
     \<and> locs (snd ns') = locs (snd ns) \<and> stor (snd ns') = stor (snd ns)"
  by (rule foldE_ghost [where J = "\<lambda>d a. dict_pass d a \<and> post (snd a) = post (snd ns)
         \<and> locs (snd a) = locs (snd ns) \<and> stor (snd a) = stor (snd ns)", OF assms(1)])
     (use assms(2) dictItem_dict_pass dictItem_views in auto)

lemma dict_pass_start: "dict_pass [] (0, snd (getOrDefineField ''_id'' New))"
proof -
  have "reg_inv (snd (getOrDefineField ''_id'' New))"
    using reg_ok_identity by (simp add: reg_ok_def)
  moreover have "dict_rep [] (snd (getOrDefineField ''_id'' New))"
    by (simp add: dict_rep_def getOrDefineField_def New_def)
  ultimately show ?thesis by (simp add: dict_pass_def firstSeen_def itemPairs_def)
qed

lemma allocPostings_views:
  "stor (allocPostings n s) = stor s" "Dicts (allocPostings n s) = Dicts s"
  "DictKeys (allocPostings n s) = DictKeys s" "FieldsMap (allocPostings n s) = FieldsMap s"
  by (simp_all add: allocPostings_def stor_def)

lemma fieldIDOf_alloc: "fieldIDOf (allocPostings n s) = fieldIDOf s"
  by (rule fieldIDOf_reg) (rule allocPostings_reg)

lemma dict_rep_cong:
  "Dicts s' = Dicts s \<Longrightarrow> DictKeys s' = DictKeys s \<Longrightarrow> dict_rep sp s' = dict_rep sp s"
  by (simp add: dict_rep_def)

lemma initializeDict_spec:
  assumes "initializeDict results (snd (getOrDefineField ''_id'' New)) = Inr s"
  shows "dict_built results s"
    and "s = allocPostings (length (firstSeen (batchPairs s results))) s"
    and "stor s = stor New"
proof -
  let ?s0 = "snd (getOrDefineField ''_id'' New)"
  from assms obtain ns where ns: "foldE dictResult results (0, ?s0) = Inr ns"
    and s: "s = allocPostings (fst ns) (snd ns)"
    by (auto simp: initializeDict_def thenE_Inr_iff)
  note p = dict_items_pass [OF dict_loop_items [OF ns] dict_pass_start]
  then have dp: "dict_pass (concat (map resultItems results)) ns" by simp
  have fid: "fieldIDOf s = fieldIDOf (snd ns)" unfolding s by (rule fieldIDOf_alloc)
  have bp: "batchPairs s results = itemPairs (fieldIDOf (snd ns)) (concat (map resultItems results))"
    by (simp add: batchPairs_def fid)
  show "dict_built results s"
    unfolding dict_built_def bp using dp
    by (simp add: dict_pass_def s reg_inv_cong [OF allocPostings_reg] allocPostings_views
          dict_rep_cong [OF allocPostings_views(2,3)])
  have "fst ns = length (firstSeen (batchPairs s results))" using dp by (simp add: dict_pass_def bp)
  then show "s = allocPostings (length (firstSeen (batchPairs s results))) s"
    by (simp add: s allocPostings_def)
  have "stor (snd ns) = stor ?s0" using p by simp
  then show "stor s = stor New" by (simp add: s allocPostings_views getOrDefineField_views)
qed

subsection \<open>Field names in first-sight order; ids below the wrap\<close>

lemma foldE_total_ghost:
  assumes "J d s"
    and "\<And>x d a. x \<in> set xs \<Longrightarrow> J d a \<Longrightarrow> \<exists>b. f x a = Inr b \<and> J (d @ [x]) b"
  shows "\<exists>t. foldE f xs s = Inr t \<and> J (d @ xs) t"
  using assms
proof (induction xs arbitrary: s d)
  case Nil
  then show ?case by simp
next
  case (Cons x xs)
  then obtain s' where s': "f x s = Inr s'" "J (d @ [x]) s'" by (meson list.set_intros(1))
  from Cons.IH [OF s'(2)] Cons.prems(2) obtain t where "foldE f xs s' = Inr t" "J ((d @ [x]) @ xs) t"
    by (meson list.set_intros(2))
  with s' show ?case by (auto simp: foldE_Cons_Inr)
qed

text \<open>names in first-sight order\<close>

lemma getOrDefineField_FieldsInv:
  assumes "reg_inv s"
  shows "FieldsInv (snd (getOrDefineField name s)) = see name (FieldsInv s)"
proof (rule getOrDefineField_cases [of s name])
  fix w assume w: "FieldsMap s name = Some w" "getOrDefineField name s = (unat (w - 1), s)"
  then have "name \<in> set (FieldsInv s)" using assms by (auto simp: reg_inv_def)
  then show ?thesis using w by (simp add: see_def)
next
  assume n: "FieldsMap s name = None"
  then have "name \<notin> set (FieldsInv s)" using assms by (auto simp: reg_inv_def)
  then show ?thesis by (simp add: getOrDefineField_new [OF n] see_def)
qed

lemma reg_FieldsInv: "reg s' = reg s \<Longrightarrow> FieldsInv s' = FieldsInv s"
  by (simp add: reg_def)

lemma dictItem_FieldsInv:
  assumes "dictItem item ns = Inr ns'" "dict_pass seen ns"
  shows "FieldsInv (snd ns') = see (fst item) (FieldsInv (snd ns))"
proof -
  obtain n s where ns: "ns = (n, s)" by (cases ns)
  obtain n' s' where ns': "ns' = (n', s')" by (cases ns')
  define s1 where "s1 = snd (getOrDefineField (fst item) s)"
  define sp where "sp = firstSeen (itemPairs (fieldIDOf s) seen)"
  from assms(2) have r: "reg_inv s" and d: "dict_rep sp s" and n: "n = length sp"
    by (simp_all add: dict_pass_def ns sp_def)
  have d1: "dict_rep sp s1" unfolding s1_def using d ext_getOrDefineField by (rule dict_rep_ext)
  from assms(1) have run: "dictProcessField (fieldIDOf s (fst item)) (snd item) (n, s1) = Inr (n', s')"
    by (simp add: dictItem_def ns ns' s1_def)
  from dictProcessField_dict_rep [OF run d1 n] have "reg s' = reg s1" by simp
  then have "FieldsInv s' = FieldsInv s1" by (rule reg_FieldsInv)
  then show ?thesis using getOrDefineField_FieldsInv [OF r] by (simp add: ns ns' s1_def)
qed

lemma dict_items_names:
  assumes "foldE dictItem items ns = Inr ns'" "dict_pass [] ns"
  shows "FieldsInv (snd ns') = fold see (map fst items) (FieldsInv (snd ns))"
proof -
  have "dict_pass ([] @ items) ns' \<and> FieldsInv (snd ns') = fold see (map fst ([] @ items)) (FieldsInv (snd ns))"
    by (rule foldE_ghost [where J = "\<lambda>d a. dict_pass d a
          \<and> FieldsInv (snd a) = fold see (map fst d) (FieldsInv (snd ns))", OF assms(1)])
       (use assms(2) dictItem_dict_pass dictItem_FieldsInv in auto)
  then show ?thesis by simp
qed

lemma initializeDict_names:
  assumes "initializeDict results (snd (getOrDefineField ''_id'' New)) = Inr s"
  shows "FieldsInv s = firstSeen (''_id'' # batchNames results)"
proof -
  let ?s0 = "snd (getOrDefineField ''_id'' New)"
  from assms obtain ns where ns: "foldE dictResult results (0, ?s0) = Inr ns"
    and s: "s = allocPostings (fst ns) (snd ns)"
    by (auto simp: initializeDict_def thenE_Inr_iff)
  have "FieldsInv ?s0 = [''_id'']" by (simp add: getOrDefineField_def New_def)
  with dict_items_names [OF dict_loop_items [OF ns] dict_pass_start]
  have "FieldsInv (snd ns) = fold see (batchNames results) [''_id'']"
    by (simp add: batchNames_def)
  then show ?thesis by (simp add: s allocPostings_def firstSeen_def see_def)
qed

text \<open>ids are injective below the wrap\<close>

lemma fieldIDOf_at:
  assumes "reg_inv s" "k < length (FieldsInv s)"
  shows "unat (fieldIDOf s (FieldsInv s ! k)) = k mod 65536"
  by (simp add: unat_fieldIDOf reg_inv_id_at [OF assms])

lemma fieldIDOf_inj:
  assumes r: "reg_inv s" and b: "length (FieldsInv s) \<le> 65536"
  shows "inj_on (fieldIDOf s) (set (FieldsInv s))"
proof (rule inj_onI)
  fix a b' assume a: "a \<in> set (FieldsInv s)" and b': "b' \<in> set (FieldsInv s)"
    and eq: "fieldIDOf s a = fieldIDOf s b'"
  from a obtain i where i: "i < length (FieldsInv s)" "a = FieldsInv s ! i"
    by (auto simp: in_set_conv_nth)
  from b' obtain j where j: "j < length (FieldsInv s)" "b' = FieldsInv s ! j"
    by (auto simp: in_set_conv_nth)
  have "i mod 65536 = j mod 65536"
    using fieldIDOf_at [OF r i(1)] fieldIDOf_at [OF r j(1)] eq i(2) j(2) by simp
  then have "i = j" using i(1) j(1) b by simp
  then show "a = b'" using i j by simp
qed

lemma batchPairs_named:
  "batchPairs s results = map (\<lambda>p. (fieldIDOf s (fst p), snd p)) (namedPairs results)"
  by (simp add: batchPairs_def namedPairs_def itemPairs_def map_concat comp_def)

lemma namedPairs_names: "fst ` set (namedPairs results) \<subseteq> set (batchNames results)"
  by (force simp: namedPairs_def batchNames_def)

lemma card_pairs:
  assumes "dict_built results s" "length (FieldsInv s) \<le> 65536"
  shows "card (set (batchPairs s results)) = card (set (namedPairs results))"
proof -
  from assms(1) have r: "reg_inv s" and n: "set (batchNames results) \<subseteq> dom (FieldsMap s)"
    by (simp_all add: dict_built_def batchNames_def)
  have d: "dom (FieldsMap s) = set (FieldsInv s)" using r by (simp add: reg_inv_def)
  have "inj_on (\<lambda>p. (fieldIDOf s (fst p), snd p)) (set (namedPairs results))"
  proof (rule inj_onI)
    fix p q assume p: "p \<in> set (namedPairs results)" and q: "q \<in> set (namedPairs results)"
      and eq: "(fieldIDOf s (fst p), snd p) = (fieldIDOf s (fst q), snd q)"
    have "fst p \<in> set (FieldsInv s)" "fst q \<in> set (FieldsInv s)"
      using p q namedPairs_names [of results] n d by auto
    then have "fst p = fst q" using fieldIDOf_inj [OF r assms(2)] eq by (auto dest: inj_onD)
    then show "p = q" using eq by (simp add: prod_eq_iff)
  qed
  then show ?thesis by (simp add: batchPairs_named card_image)
qed

lemma length_firstSeen: "length (firstSeen xs) = card (set xs)"
  using distinct_card [OF distinct_firstSeen, of xs] by simp

subsection \<open>Totality of the dictionary pass; a batch whose ids wrap\<close>

text \<open>totality of the dictionary pass\<close>

lemma dictProcessField_total:
  assumes "dict_rep sp s" "n = length sp" "unat f < length (Dicts s)"
  shows "\<exists>ns'. dictProcessField f tf (n, s) = Inr ns'"
  using assms unfolding dictProcessField_def
proof (induction tf arbitrary: n s sp)
  case Nil
  then show ?case by simp
next
  case (Cons kv tf)
  have l: "length (DictKeys s) = length (Dicts s)" using Cons.prems(1) by (simp add: dict_rep_def)
  obtain n1 s1 where 1: "dictTerm f kv (n, s) = Inr (n1, s1)"
    using dictTerm_total [OF Cons.prems(3) l, of kv n] by (metis surj_pair)
  note a = dictTerm_dict_rep [OF 1 Cons.prems(1,2)]
  then have "length (Dicts s1) = length (Dicts s)" by (simp add: reg_def)
  then have "unat f < length (Dicts s1)" using Cons.prems(3) by simp
  from Cons.IH [of "see (f, fst kv) sp" s1 n1] a this
  obtain ns' where "foldE (dictTerm f) tf (n1, s1) = Inr ns'" by auto
  then show ?case using 1 by (auto simp: foldE_Cons_Inr)
qed

lemma dictItem_total:
  assumes "dict_pass seen ns"
  shows "\<exists>ns'. dictItem item ns = Inr ns'"
proof -
  obtain n s where ns: "ns = (n, s)" by (cases ns)
  define s1 where "s1 = snd (getOrDefineField (fst item) s)"
  define sp where "sp = firstSeen (itemPairs (fieldIDOf s) seen)"
  from assms have r: "reg_inv s" and d: "dict_rep sp s" and n: "n = length sp"
    by (simp_all add: dict_pass_def ns sp_def)
  have d1: "dict_rep sp s1" unfolding s1_def using d ext_getOrDefineField by (rule dict_rep_ext)
  have u: "unat (fieldIDOf s (fst item)) < length (Dicts s1)"
    unfolding s1_def using r by (rule fieldIDOf_in_range)
  from dictProcessField_total [OF d1 n u] show ?thesis by (simp add: dictItem_def ns s1_def)
qed

lemma initializeDict_total:
  assumes "\<forall>r\<in>set results. length (Fields (Document r)) \<le> length (Analyzed r)"
  shows "\<exists>s. initializeDict results (snd (getOrDefineField ''_id'' New)) = Inr s"
proof -
  let ?s0 = "snd (getOrDefineField ''_id'' New)"
  have "\<exists>t. foldE dictItem (concat (map resultItems results)) (0, ?s0) = Inr t
       \<and> dict_pass ([] @ concat (map resultItems results)) t"
    by (rule foldE_total_ghost [where J = dict_pass, OF dict_pass_start])
       (use dictItem_total dictItem_dict_pass in blast)
  then obtain t where "foldE dictResult results (0, ?s0) = Inr t"
    using dict_loop_total [OF assms] by auto
  then show ?thesis by (simp add: initializeDict_def)
qed

text \<open>the batch whose ids wrap\<close>

lemma resultItems_oneField [simp]: "resultItems (oneFieldResult name tf) = [(name, tf)]"
  by (simp add: resultItems_def oneFieldResult_def enumerate_eq_zip)

lemma wrapBatch_items:
  "concat (map resultItems wrapBatch)
     = map (\<lambda>n. (fieldName n, [])) [0..<65535] @ [(fieldName 65535, tf_x), (''_id'', tf_x)]"
proof -
  have "concat (map resultItems (map (\<lambda>n. oneFieldResult (fieldName n) []) ns))
      = map (\<lambda>n. (fieldName n, [])) ns" for ns :: "nat list"
    by (induction ns) simp_all
  then show ?thesis by (simp add: wrapBatch_def)
qed

lemma upt_65536: "[0..<65536] = [0..<65535] @ [65535]"
proof -
  have "[0..<Suc 65535] = [0..<65535] @ [65535]" by (simp only: upt_Suc_append le0)
  then show ?thesis by simp
qed

lemma wrapBatch_names: "batchNames wrapBatch = map fieldName [0..<65536] @ [''_id'']"
  by (simp add: batchNames_def wrapBatch_items upt_65536 comp_def)

lemma wrapBatch_namedPairs: "namedPairs wrapBatch = [(fieldName 65535, ''x''), (''_id'', ''x'')]"
proof -
  have "concat (map (\<lambda>item. map (\<lambda>kv. (fst item, fst kv)) (snd item))
           (map (\<lambda>n. (fieldName n, [])) ns)) = []" for ns :: "nat list"
    by (induction ns) simp_all
  then show ?thesis by (simp add: namedPairs_def wrapBatch_items tf_x_def)
qed

lemma fold_see_new: "distinct ys \<Longrightarrow> set ys \<inter> set xs = {} \<Longrightarrow> fold see ys xs = xs @ ys"
  by (induction ys arbitrary: xs) (auto simp: see_def)

lemma wrapBatch_total: "\<exists>s. initializeDict wrapBatch (snd (getOrDefineField ''_id'' New)) = Inr s"
  by (rule initializeDict_total) (auto simp: wrapBatch_def oneFieldResult_def)

lemma wrapBatch_slots:
  assumes "initializeDict wrapBatch (snd (getOrDefineField ''_id'' New)) = Inr s"
  shows "length (Postings s) = 1"
proof -
  note a = initializeDict_spec [OF assms]
  have r: "reg_inv s" using a(1) by (simp add: dict_built_def)
  have d: "distinct (map fieldName [0..<65536])"
    by (simp add: distinct_map inj_on_subset [OF fieldName_inj])
  have n: "set (map fieldName [0..<65536]) \<inter> set [''_id''] = {}"
    using fieldName_not_id by (auto simp: fieldName_not_id [symmetric])
  have inv: "FieldsInv s = ''_id'' # map fieldName [0..<65536]"
    using initializeDict_names [OF assms] fold_see_new [OF d n]
    by (simp add: wrapBatch_names firstSeen_def see_def)
  have len: "(65536::nat) < length (FieldsInv s)" "(0::nat) < length (FieldsInv s)"
    by (simp_all add: inv)
  have n0: "FieldsInv s ! 0 = ''_id''" by (simp add: inv)
  have "FieldsInv s ! Suc 65535 = map fieldName [0..<65536] ! 65535"
    unfolding inv by (rule nth_Cons_Suc)
  then have n1: "FieldsInv s ! 65536 = fieldName 65535" by simp
  have "unat (fieldIDOf s (fieldName 65535)) = 0" "unat (fieldIDOf s ''_id'') = 0"
    using fieldIDOf_at [OF r len(1)] fieldIDOf_at [OF r len(2)] by (simp_all add: n0 n1)
  then have id: "fieldIDOf s (fieldName 65535) = 0" "fieldIDOf s ''_id'' = 0"
    by (simp_all add: unsigned_eq_0_iff)
  have "batchPairs s wrapBatch = [(0, ''x''), (0, ''x'')]"
    by (simp add: batchPairs_named wrapBatch_namedPairs id)
  then have "length (firstSeen (batchPairs s wrapBatch)) = 1"
    by (simp add: firstSeen_def see_def)
  moreover have "Postings s = Postings (allocPostings (length (firstSeen (batchPairs s wrapBatch))) s)"
    using a(2) by simp
  ultimately show ?thesis by (simp add: allocPostings_def)
qed

subsection \<open>The registry and the dictionaries through document assembly\<close>

lemma ext_update:
  "FieldsMap s' = FieldsMap s1 \<Longrightarrow> Dicts s' = Dicts s1 \<Longrightarrow> DictKeys s' = DictKeys s1
    \<Longrightarrow> ext s s1 \<Longrightarrow> ext s s'"
  by (simp add: ext_def)

lemma addLocation_ext: assumes "addLocation f p loc s = Inr s'" shows "ext s s'"
proof -
  define s1 where "s1 = (if LocField loc \<noteq> [] then snd (getOrDefineField (LocField loc) s) else s)"
  have e: "ext s s1" by (simp add: s1_def ext_refl ext_getOrDefineField)
  note a = addLocation_Inr [OF assms, folded s1_def]
  from a have "FieldsMap s' = FieldsMap s1" "Dicts s' = Dicts s1" "DictKeys s' = DictKeys s1"
    by simp_all
  then show ?thesis using e by (rule ext_update)
qed

lemma foldE_rel:
  assumes "foldE f xs s = Inr t"
    and "\<And>a. R a a" and "\<And>a b c. R a b \<Longrightarrow> R b c \<Longrightarrow> R a c"
    and "\<And>x a b. x \<in> set xs \<Longrightarrow> f x a = Inr b \<Longrightarrow> R a b"
  shows "R s t"
  by (rule foldE_invariant [where I = "R s", OF assms(1)]) (use assms(2-4) in blast)+

lemma addPosting_ext: assumes "addPosting d fl e s = Inr s'" shows "ext s s'"
proof -
  obtain f t tf where e: "e = (f, t, tf)" by (cases e)
  define p where "p = postingIndex s f t"
  define s1 where "s1 = s\<lparr>Postings := (Postings s)[p := insert d (Postings s ! p)],
               Freqs := (Freqs s)[p := Freqs s ! p @ [frequency tf]],
               Norms := (Norms s)[p := Norms s ! p @ [InvSqrt (sint (fl f))]]\<rparr>"
  define s2 where "s2 = s1\<lparr>PostingsLocs := (PostingsLocs s)[p := insert d (PostingsLocs s ! p)]\<rparr>"
  note c = addPosting_Inr [OF assms [unfolded e], folded p_def, folded s1_def, folded s2_def]
  have e1: "ext s s1" "ext s s2" by (simp_all add: s1_def s2_def ext_same)
  show ?thesis
  proof (cases "Locations tf = []")
    case True
    then show ?thesis using c e1 by simp
  next
    case False
    then have 2: "foldE (addLocation f p) (Locations tf) s2 = Inr s'" using c by simp
    have "ext s2 s'"
      by (rule foldE_rel [where R = ext, OF 2]) (auto intro: ext_refl ext_trans addLocation_ext)
    then show ?thesis using e1(2) ext_trans by blast
  qed
qed

lemma procComposite_ext: "ext (snd cs) (snd (procComposite cf cs))"
proof -
  have "snd (procComposite cf cs) = snd (getOrDefineField (CompositeName cf) (snd cs))"
    by (cases cs) (simp add: procComposite_def split: prod.splits)
  then show ?thesis by (simp add: ext_getOrDefineField)
qed

lemma fold_procComposite_ext: "ext (snd cs) (snd (fold procComposite cfs cs))"
proof (induction cfs arbitrary: cs)
  case Nil
  then show ?case by (simp add: ext_refl)
next
  case (Cons cf cfs)
  from Cons [of "procComposite cf cs"] procComposite_ext [of cs cf] show ?case
    by (auto intro: ext_trans)
qed

lemma storeField_ext: "storeField d f t v p s = Inr s' \<Longrightarrow> ext s s'"
  by (auto simp: storeField_def split: if_splits intro: ext_same)

lemma procField_ext:
  assumes "procField result d ifield cs = Inr cs'" shows "ext (snd cs) (snd cs')"
proof -
  obtain c s where cs: "cs = (c, s)" by (cases cs)
  obtain i fld where ifield: "ifield = (i, fld)" by (cases ifield)
  define s1 where "s1 = snd (getOrDefineField (Name fld) s)"
  define fid :: uint16 where "fid = word_of_nat (fst (getOrDefineField (Name fld) s))"
  from procField_Inr [OF assms [unfolded cs ifield], folded s1_def fid_def] obtain s2 where
    s2: "(if IsStored fld
          then storeField d fid (encodeFieldType fld) (Value fld) (FieldArrayPositions fld) s1
          else Inr s1) = Inr s2"
    and c': "snd cs' = (if IncludeDocValues fld
        then s2\<lparr>DocValueFields := (DocValueFields s2)(fid \<mapsto> True)\<rparr> else s2)"
    by blast
  have 1: "ext s s1" unfolding s1_def by (rule ext_getOrDefineField)
  have 2: "ext s1 s2" using s2 by (auto split: if_splits intro: ext_refl storeField_ext)
  have 3: "ext s2 (snd cs')" by (simp add: c' ext_refl ext_same)
  show ?thesis using 1 2 3 by (auto simp: cs intro: ext_trans)
qed

lemma processDocument_ext:
  assumes "processDocument sched result s = Inr s'" shows "ext s s'"
proof -
  obtain d s0 where a: "addDocument s = (d, s0)" by (cases "addDocument s")
  have e0: "ext s s0" using a by (auto simp: addDocument_def intro: ext_same)
  let ?cs1 = "fold procComposite (CompositeFields (Document result)) (([], \<lambda>_. 0), s0)"
  from assms(1) obtain cs where cs: "foldE (procField result d) (enumerate 0 (Fields (Document result))) ?cs1 = Inr cs"
    and fin: "foldE (addPosting d (snd (fst cs))) (sched d (entries (fst (fst cs)))) (snd cs) = Inr s'"
    by (auto simp: processDocument_def a thenE_Inr_iff)
  have e1: "ext s0 (snd ?cs1)" using fold_procComposite_ext [of "(([], \<lambda>_. 0), s0)"] by simp
  have e2: "ext (snd ?cs1) (snd cs)"
    by (rule foldE_rel [where R = "\<lambda>a b. ext (snd a) (snd b)", OF cs])
       (auto intro: ext_refl ext_trans procField_ext)
  have e3: "ext (snd cs) s'"
    by (rule foldE_rel [where R = ext, OF fin]) (auto intro: ext_refl ext_trans addPosting_ext)
  show ?thesis using e0 e1 e2 e3 by (blast intro: ext_trans)
qed

lemma assembly_ext:
  assumes "foldE (processDocument sched) docs s = Inr s'" shows "ext s s'"
  by (rule foldE_rel [where R = ext, OF assms]) (auto intro: ext_refl ext_trans processDocument_ext)


subsection \<open>Two runs over one batch\<close>



lemma addPosting_length:
  assumes "addPosting d fl e s = Inr s'" shows "length (Postings s') = length (Postings s)"
proof -
  obtain f t tf where e: "e = (f, t, tf)" by (cases e)
  from addPosting_sets(1) [OF assms [unfolded e]] show ?thesis by simp
qed

lemma post_Postings: "post s' = post s \<Longrightarrow> Postings s' = Postings s"
  by (simp add: post_def)

lemma processDocument_length:
  assumes "processDocument sched result s = Inr s'"
  shows "length (Postings s') = length (Postings s)"
proof -
  obtain d s0 where a: "addDocument s = (d, s0)" by (cases "addDocument s")
  have p0: "Postings s0 = Postings s" using post_Postings [OF addDocument_views(1), of s] a by simp
  let ?cs1 = "fold procComposite (CompositeFields (Document result)) (([], \<lambda>_. 0), s0)"
  from assms(1) obtain cs where cs: "foldE (procField result d) (enumerate 0 (Fields (Document result))) ?cs1 = Inr cs"
    and fin: "foldE (addPosting d (snd (fst cs))) (sched d (entries (fst (fst cs)))) (snd cs) = Inr s'"
    by (auto simp: processDocument_def a thenE_Inr_iff)
  have p1: "Postings (snd ?cs1) = Postings s0"
    using post_Postings [OF fold_procComposite_views(1)] by simp
  have "post (snd cs) = post (snd ?cs1)"
    by (rule foldE_invariant [where I = "\<lambda>a. post (snd a) = post (snd ?cs1)", OF cs])
       (auto dest: procField_views(1))
  then have p2: "Postings (snd cs) = Postings (snd ?cs1)" by (rule post_Postings)
  have "length (Postings s') = length (Postings (snd cs))"
    by (rule foldE_invariant [where I = "\<lambda>a. length (Postings a) = length (Postings (snd cs))", OF fin])
       (auto dest: addPosting_length)
  then show ?thesis using p0 p1 p2 by simp
qed

lemma assembly_length:
  assumes "foldE (processDocument sched) docs s = Inr s'"
  shows "length (Postings s') = length (Postings s)"
  by (rule foldE_invariant [where I = "\<lambda>a. length (Postings a) = length (Postings s)", OF assms])
     (auto dest: processDocument_length)

lemma dict_built_lookup:
  assumes "dict_built results s" "(name, trm) \<in> set (namedPairs results)"
  shows "unat (fieldIDOf s name) < length (Dicts s)"
    and "(Dicts s ! unat (fieldIDOf s name)) trm \<noteq> None"
proof -
  from assms(1) have r: "reg_inv s" and n: "set (batchNames results) \<subseteq> dom (FieldsMap s)"
    and d: "dict_rep (firstSeen (batchPairs s results)) s"
    by (simp_all add: dict_built_def batchNames_def)
  have "name \<in> dom (FieldsMap s)" using assms(2) namedPairs_names [of results] n by force
  then have same: "snd (getOrDefineField name s) = s" by (auto simp: getOrDefineField_known)
  show u: "unat (fieldIDOf s name) < length (Dicts s)"
    using fieldIDOf_in_range [OF r, of name] by (simp add: same)
  have "(fieldIDOf s name, trm) \<in> set (firstSeen (batchPairs s results))"
    using assms(2) by (force simp: batchPairs_named)
  then show "(Dicts s ! unat (fieldIDOf s name)) trm \<noteq> None"
    using dict_rep_lookup [OF d u] by blast
qed

lemma ext_FieldsMap: "ext s s' \<Longrightarrow> FieldsMap s name = Some w \<Longrightarrow> FieldsMap s' name = Some w"
  by (simp add: ext_def)


lemma initializeDict_slots:
  assumes "initializeDict results (snd (getOrDefineField ''_id'' New)) = Inr a"
  shows "length (Postings a) = card (set (batchPairs a results))"
proof -
  have "Postings a = Postings (allocPostings (length (firstSeen (batchPairs a results))) a)"
    using initializeDict_spec(2) [OF assms] by simp
  then show ?thesis by (simp add: allocPostings_def length_firstSeen)
qed


lemma built_pair_lookup:
  assumes d: "dict_built results a" and p: "p \<in> set (namedPairs results)"
    and keep: "\<And>name. name \<in> dom (FieldsMap a) \<Longrightarrow> FieldsMap s name = FieldsMap a name"
    and same: "\<And>f. f < length (Dicts a) \<Longrightarrow> Dicts s ! f = Dicts a ! f"
  shows "(Dicts s ! unat (fieldIDOf s (fst p))) (snd p) = (Dicts a ! unat (fieldIDOf a (fst p))) (snd p)"
    and "(Dicts a ! unat (fieldIDOf a (fst p))) (snd p) \<noteq> None"
proof -
  have n: "set (batchNames results) \<subseteq> dom (FieldsMap a)"
    using d by (simp add: dict_built_def batchNames_def)
  have "fst p \<in> set (batchNames results)" using p namedPairs_names [of results] by blast
  then have dm: "fst p \<in> dom (FieldsMap a)" using n by blast
  then obtain w where w: "FieldsMap a (fst p) = Some w" by blast
  then have "FieldsMap s (fst p) = Some w" using keep [OF dm] by simp
  then have f: "fieldIDOf s (fst p) = fieldIDOf a (fst p)" using w by (simp add: fieldIDOf_known)
  have pp: "(fst p, snd p) \<in> set (namedPairs results)" using p by simp
  note l = dict_built_lookup [OF d pp]
  show "(Dicts s ! unat (fieldIDOf s (fst p))) (snd p) = (Dicts a ! unat (fieldIDOf a (fst p))) (snd p)"
    unfolding f using same [OF l(1)] by simp
  show "(Dicts a ! unat (fieldIDOf a (fst p))) (snd p) \<noteq> None" by (rule l(2))
qed




subsection \<open>Ordinals in order of first appearance\<close>

lemma see_map:
  assumes "inj_on h (insert y (set xs))"
  shows "see (h y) (map h xs) = map h (see y xs)"
proof -
  have "h y \<in> h ` set xs \<longleftrightarrow> y \<in> set xs"
    using assms by (auto dest: inj_onD)
  then show ?thesis by (simp add: see_def)
qed

lemma fold_see_map:
  assumes "inj_on h (set xs \<union> set ys)"
  shows "fold see (map h ys) (map h xs) = map h (fold see ys xs)"
  using assms
proof (induction ys arbitrary: xs)
  case Nil
  then show ?case by simp
next
  case (Cons y ys)
  have 1: "inj_on h (insert y (set xs))"
    by (rule inj_on_subset [OF Cons.prems]) auto
  have 2: "inj_on h (set (see y xs) \<union> set ys)"
    by (rule inj_on_subset [OF Cons.prems]) auto
  show ?case using Cons.IH [OF 2] by (simp add: see_map [OF 1])
qed

lemma firstSeen_map: "inj_on h (set xs) \<Longrightarrow> firstSeen (map h xs) = map h (firstSeen xs)"
  using fold_see_map [of h "[]" xs] by (simp add: firstSeen_def)

lemma pairs_inj:
  assumes "dict_built results s" "length (FieldsInv s) \<le> 65536"
  shows "inj_on (\<lambda>p. (fieldIDOf s (fst p), snd p)) (set (namedPairs results))"
proof (rule inj_onI)
  from assms(1) have r: "reg_inv s" and n: "set (batchNames results) \<subseteq> dom (FieldsMap s)"
    by (simp_all add: dict_built_def batchNames_def)
  have d: "dom (FieldsMap s) = set (FieldsInv s)" using r by (simp add: reg_inv_def)
  fix p q assume p: "p \<in> set (namedPairs results)" and q: "q \<in> set (namedPairs results)"
    and eq: "(fieldIDOf s (fst p), snd p) = (fieldIDOf s (fst q), snd q)"
  have "fst p \<in> set (FieldsInv s)" "fst q \<in> set (FieldsInv s)"
    using p q namedPairs_names [of results] n d by auto
  then have "fst p = fst q" using fieldIDOf_inj [OF r assms(2)] eq by (auto dest: inj_onD)
  then show "p = q" using eq by (simp add: prod_eq_iff)
qed

lemma postingIndex_Some:
  "(Dicts s ! unat f) t = Some (Suc i) \<Longrightarrow> postingIndex s f t = i"
  by (simp add: postingIndex_def)

lemma names_bound:
  assumes "initializeDict results (snd (getOrDefineField ''_id'' New)) = Inr a"
  shows "length (FieldsInv a) = card (insert ''_id'' (set (batchNames results)))"
  using length_firstSeen [of "''_id'' # batchNames results"]
  by (simp add: initializeDict_names [OF assms])

lemma ordinals_in_order:
  assumes a: "initializeDict results (snd (getOrDefineField ''_id'' New)) = Inr a"
    and bound: "card (insert ''_id'' (set (batchNames results))) \<le> 65536"
    and i: "i < length (firstSeen (namedPairs results))"
  shows "(Dicts a ! unat (fieldIDOf a (fst (firstSeen (namedPairs results) ! i))))
            (snd (firstSeen (namedPairs results) ! i)) = Some (Suc i)"
    and "firstSeen (namedPairs results) ! i \<in> set (namedPairs results)"
    and "length (Postings a) = length (firstSeen (namedPairs results))"
proof -
  note d = initializeDict_spec [OF a]
  have b: "length (FieldsInv a) \<le> 65536" using bound by (simp add: names_bound [OF a])
  let ?H = "\<lambda>p. (fieldIDOf a (fst p), snd p)"
  have sp: "firstSeen (batchPairs a results) = map ?H (firstSeen (namedPairs results))"
    unfolding batchPairs_named by (rule firstSeen_map [OF pairs_inj [OF d(1) b]])
  have rep: "dict_rep (map ?H (firstSeen (namedPairs results))) a"
    using d(1) by (simp add: dict_built_def sp)
  have i': "i < length (map ?H (firstSeen (namedPairs results)))" using i by simp
  from rep have "\<forall>j<length (map ?H (firstSeen (namedPairs results))).
      (Dicts a ! unat (fst (map ?H (firstSeen (namedPairs results)) ! j)))
        (snd (map ?H (firstSeen (namedPairs results)) ! j)) = Some (Suc j)"
    unfolding dict_rep_def by blast
  from this [rule_format, OF i']
  have "(Dicts a ! unat (fst (map ?H (firstSeen (namedPairs results)) ! i)))
      (snd (map ?H (firstSeen (namedPairs results)) ! i)) = Some (Suc i)" .
  then show "(Dicts a ! unat (fieldIDOf a (fst (firstSeen (namedPairs results) ! i))))
            (snd (firstSeen (namedPairs results) ! i)) = Some (Suc i)"
    using i by simp
  show "firstSeen (namedPairs results) ! i \<in> set (namedPairs results)"
    using nth_mem [OF i] by simp
  have "length (Postings a) = card (set (batchPairs a results))" by (rule initializeDict_slots [OF a])
  also have "\<dots> = length (firstSeen (batchPairs a results))"
    by (simp only: length_firstSeen)
  also have "\<dots> = length (firstSeen (namedPairs results))"
    unfolding sp by (rule length_map)
  finally show "length (Postings a) = length (firstSeen (namedPairs results))" .
qed

text \<open>the wrap batch\<close>

lemma wrapBatch_ids:
  assumes "initializeDict wrapBatch (snd (getOrDefineField ''_id'' New)) = Inr s"
  shows "fieldIDOf s (fieldName 65535) = 0" "fieldIDOf s ''_id'' = 0"
proof -
  note a = initializeDict_spec [OF assms]
  have r: "reg_inv s" using a(1) by (simp add: dict_built_def)
  have d: "distinct (map fieldName [0..<65536])"
    by (simp add: distinct_map inj_on_subset [OF fieldName_inj])
  have n: "set (map fieldName [0..<65536]) \<inter> set [''_id''] = {}"
    using fieldName_not_id by (auto simp: fieldName_not_id [symmetric])
  have inv: "FieldsInv s = ''_id'' # map fieldName [0..<65536]"
    using initializeDict_names [OF assms] fold_see_new [OF d n]
    by (simp add: wrapBatch_names firstSeen_def see_def)
  have len: "(65536::nat) < length (FieldsInv s)" "(0::nat) < length (FieldsInv s)"
    by (simp_all add: inv)
  have n0: "FieldsInv s ! 0 = ''_id''" by (simp add: inv)
  have "FieldsInv s ! Suc 65535 = map fieldName [0..<65536] ! 65535"
    unfolding inv by (rule nth_Cons_Suc)
  then have n1: "FieldsInv s ! 65536 = fieldName 65535" by simp
  have "unat (fieldIDOf s (fieldName 65535)) = 0" "unat (fieldIDOf s ''_id'') = 0"
    using fieldIDOf_at [OF r len(1)] fieldIDOf_at [OF r len(2)] by (simp_all add: n0 n1)
  then show "fieldIDOf s (fieldName 65535) = 0" "fieldIDOf s ''_id'' = 0"
    by (simp_all add: unsigned_eq_0_iff)
qed

section \<open>The claims\<close>

text \<open>
  Claim C4, as the code has it. In every state that the builder can reach once the
  identity field is registered (by further registrations, the dictionary pass, the
  assembly of a document or the sort step), the name "_id" has external field id 0; the
  map \<open>FieldsMap\<close>, the list \<open>FieldsInv\<close>, \<open>Dicts\<close> and \<open>DictKeys\<close> have the same
  size; a registered name is never registered again and an unregistered name is appended
  at the end of \<open>FieldsInv\<close>, so \<open>FieldsInv\<close> lists the distinct names in first-sight
  order; and while at most 65536 names are registered, external field id \<open>k\<close> is held by
  exactly the \<open>k\<close>-th name of that list.
\<close>

theorem field_registry_invariant:
  assumes "reachable s"
  shows "fst (getOrDefineField ''_id'' s) = 0
    \<and> card (dom (FieldsMap s)) = length (FieldsInv s)
    \<and> length (Dicts s) = length (FieldsInv s)
    \<and> length (DictKeys s) = length (FieldsInv s)
    \<and> (length (FieldsInv s) \<le> 65536 \<longrightarrow>
         (\<forall>k<length (FieldsInv s). \<forall>name.
            (name \<in> dom (FieldsMap s) \<and> fst (getOrDefineField name s) = k)
              \<longleftrightarrow> name = FieldsInv s ! k))
    \<and> (\<forall>name. name \<in> dom (FieldsMap s) \<longrightarrow> snd (getOrDefineField name s) = s)
    \<and> (\<forall>name. name \<notin> dom (FieldsMap s) \<longrightarrow>
          FieldsInv (snd (getOrDefineField name s)) = FieldsInv s @ [name])"
proof (intro conjI impI allI)
  have r: "reg_inv s" and i: "FieldsMap s ''_id'' = Some 1"
    using reachable_reg_ok [OF assms] by (simp_all add: reg_ok_def)
  show "fst (getOrDefineField ''_id'' s) = 0" by (simp add: getOrDefineField_known [OF i])
  show "card (dom (FieldsMap s)) = length (FieldsInv s)"
    using r by (simp add: reg_inv_def distinct_card)
  show "length (Dicts s) = length (FieldsInv s)" "length (DictKeys s) = length (FieldsInv s)"
    using r by (simp_all add: reg_inv_def)
  show "snd (getOrDefineField name s) = s" if "name \<in> dom (FieldsMap s)" for name
    using that by (auto simp: getOrDefineField_known)
  show "FieldsInv (snd (getOrDefineField name s)) = FieldsInv s @ [name]"
    if "name \<notin> dom (FieldsMap s)" for name
    using that by (cases "FieldsMap s name") (auto simp: getOrDefineField_new)
  show "(name \<in> dom (FieldsMap s) \<and> fst (getOrDefineField name s) = k)
      \<longleftrightarrow> name = FieldsInv s ! k"
    if "length (FieldsInv s) \<le> 65536" "k < length (FieldsInv s)" for k name
    using reg_inv_ids [OF r that] .
qed

theorem field_registry_invariant_witness:
  "reachable (snd (getOrDefineField ''_id'' New))
   \<and> fst (getOrDefineField ''_id'' (snd (getOrDefineField ''_id'' New))) = 0
   \<and> card (dom (FieldsMap (snd (getOrDefineField ''_id'' New))))
       = length (FieldsInv (snd (getOrDefineField ''_id'' New)))
   \<and> length (Dicts (snd (getOrDefineField ''_id'' New)))
       = length (FieldsInv (snd (getOrDefineField ''_id'' New)))
   \<and> length (DictKeys (snd (getOrDefineField ''_id'' New)))
       = length (FieldsInv (snd (getOrDefineField ''_id'' New)))"
  using field_registry_invariant [OF reachable.r_identity] reachable.r_identity by blast

text \<open>
  Claim C4 as stated fails once more than 65536 names are registered: the field id is a
  \<open>uint16\<close>, and the 65537th name gets \<open>uint16(65537) = 1\<close>, the id of "_id". After
  registering "_id" and the 65536 names \<open>fieldName 0\<close>, ..., \<open>fieldName 65535\<close>, external
  field id 0 is held by "_id", the first name seen, and also by \<open>fieldName 65535\<close>.
\<close>

theorem field_id_wraps_counterexample:
  "reachable manyFields \<and> fieldName 65535 \<in> dom (FieldsMap manyFields)
   \<and> fst (getOrDefineField (fieldName 65535) manyFields) = 0
   \<and> FieldsInv manyFields ! 0 = ''_id'' \<and> fieldName 65535 \<noteq> ''_id''"
proof -
  have r: "reachable manyFields"
    unfolding manyFields_def by (rule defineFields_reachable [OF reachable.r_identity])
  then have inv: "reg_inv manyFields" using reachable_reg_ok by (simp add: reg_ok_def)
  have len: "(65536::nat) < length (FieldsInv manyFields)" by (simp add: manyFields_FieldsInv)
  have nth: "FieldsInv manyFields ! 65536 = fieldName 65535"
  proof -
    have "FieldsInv manyFields ! Suc 65535 = map fieldName [0..<65536] ! 65535"
      unfolding manyFields_FieldsInv by (rule nth_Cons_Suc)
    also have "\<dots> = fieldName 65535" by simp
    finally show ?thesis by simp
  qed
  have "getOrDefineField (FieldsInv manyFields ! 65536) manyFields = (65536 mod 65536, manyFields)"
    by (rule reg_inv_id_at [OF inv len])
  then have id0: "fst (getOrDefineField (fieldName 65535) manyFields) = 0" by (simp add: nth)
  have "fieldName 65535 \<in> set (FieldsInv manyFields)" using nth len nth_mem by metis
  then have d: "fieldName 65535 \<in> dom (FieldsMap manyFields)" using inv by (simp add: reg_inv_def)
  have "FieldsInv manyFields ! 0 = ''_id''" by (simp add: manyFields_FieldsInv)
  then show ?thesis using r d id0 fieldName_not_id by simp
qed

text \<open>
  Claim C9. When \<open>NewFromAnalyzedDocs\<close> returns a segment, every term list in
  \<open>DictKeys\<close> is sorted in the lexicographic order of the byte values; sorting the built
  segment again changes no term list (the sort step returns the same segment); and the
  sort step changes no posting ordinal: \<open>Dicts\<close> is the same before and after it.
\<close>

theorem term_lists_sorted:
  assumes "NewFromAnalyzedDocs sched results = Inr s"
  shows "list_all sorted (DictKeys s)
    \<and> DictKeys (sortDictKeys s) = DictKeys s
    \<and> sortDictKeys s = s
    \<and> Dicts (sortDictKeys s') = Dicts s'"
proof -
  obtain s2 where s: "s = sortDictKeys s2" using NewFromAnalyzedDocs_sorted [OF assms] ..
  have "list_all sorted (DictKeys s)" by (simp add: s sortDictKeys_def list_all_iff)
  moreover have "sortDictKeys s = s" by (simp add: s sortDictKeys_idem)
  ultimately show ?thesis by (simp add: sortDictKeys_Dicts)
qed

theorem term_lists_sorted_witness:
  "NewFromAnalyzedDocs in_order example_batch = Inr example_segment
   \<and> list_all sorted (DictKeys example_segment)
   \<and> DictKeys (sortDictKeys example_segment) = DictKeys example_segment
   \<and> sortDictKeys example_segment = example_segment"
  using term_lists_sorted [OF example_run] example_run by simp

text \<open>
  Claim C6, as the code has it. Let \<open>P\<close> be the number of distinct (field name, term)
  pairs of the batch, collected from the composite and the regular fields of every result.
  When the batch, together with "_id", has at most 65536 distinct field names and
  \<open>initializeDict\<close> returns (called, as \<open>NewFromAnalyzedDocs\<close> calls it, on the new
  segment with the identity field registered), each of the nine postings-parallel arrays
  has exactly \<open>P\<close> slots, every bitmap slot is the empty set, every sequence slot is
  empty, and \<open>Stored\<close>, \<open>StoredTypes\<close>, \<open>StoredPos\<close> and the doc-values flags are as in
  the new segment: no document has been added.
\<close>

theorem dictionary_pass_postcondition:
  assumes "initializeDict results (snd (getOrDefineField ''_id'' New)) = Inr s"
    and "card (insert ''_id'' (set (batchNames results))) \<le> 65536"
  shows "Postings s = replicate (card (set (namedPairs results))) {}
    \<and> PostingsLocs s = replicate (card (set (namedPairs results))) {}
    \<and> Freqs s = replicate (card (set (namedPairs results))) []
    \<and> Norms s = replicate (card (set (namedPairs results))) []
    \<and> Locfields s = replicate (card (set (namedPairs results))) []
    \<and> Locstarts s = replicate (card (set (namedPairs results))) []
    \<and> Locends s = replicate (card (set (namedPairs results))) []
    \<and> Locpos s = replicate (card (set (namedPairs results))) []
    \<and> Locarraypos s = replicate (card (set (namedPairs results))) []
    \<and> Stored s = [] \<and> StoredTypes s = [] \<and> StoredPos s = [] \<and> DocValueFields s = Map.empty"
proof -
  note a = initializeDict_spec [OF assms(1)]
  have "length (FieldsInv s) = card (insert ''_id'' (set (batchNames results)))"
    using length_firstSeen [of "''_id'' # batchNames results"]
    by (simp add: initializeDict_names [OF assms(1)])
  then have b: "length (FieldsInv s) \<le> 65536" using assms(2) by simp
  have c: "length (firstSeen (batchPairs s results)) = card (set (namedPairs results))"
    using card_pairs [OF a(1) b] by (simp add: length_firstSeen)
  have 1: "Postings s = Postings (allocPostings (card (set (namedPairs results))) s)"
    "PostingsLocs s = PostingsLocs (allocPostings (card (set (namedPairs results))) s)"
    "Freqs s = Freqs (allocPostings (card (set (namedPairs results))) s)"
    "Norms s = Norms (allocPostings (card (set (namedPairs results))) s)"
    "Locfields s = Locfields (allocPostings (card (set (namedPairs results))) s)"
    "Locstarts s = Locstarts (allocPostings (card (set (namedPairs results))) s)"
    "Locends s = Locends (allocPostings (card (set (namedPairs results))) s)"
    "Locpos s = Locpos (allocPostings (card (set (namedPairs results))) s)"
    "Locarraypos s = Locarraypos (allocPostings (card (set (namedPairs results))) s)"
    using a(2) unfolding c by simp_all
  have 2: "Stored s = [] \<and> StoredTypes s = [] \<and> StoredPos s = [] \<and> DocValueFields s = Map.empty"
    using a(3) by (simp add: stor_def New_def)
  show ?thesis using 1 2 by (simp add: allocPostings_def)
qed

theorem dictionary_pass_postcondition_witness:
  "initializeDict example_batch (snd (getOrDefineField ''_id'' New)) = Inr example_dict_segment
   \<and> card (insert ''_id'' (set (batchNames example_batch))) \<le> 65536
   \<and> Postings example_dict_segment = replicate (card (set (namedPairs example_batch))) {}
   \<and> length (Postings example_dict_segment) = 4
   \<and> Stored example_dict_segment = []"
proof -
  have n: "batchNames example_batch = [''_all'', ''body'', ''body'']"
    by (simp add: batchNames_def resultItems_def example_defs enumerate_eq_zip)
  have c: "card (insert ''_id'' (set (batchNames example_batch))) \<le> 65536"
    by (simp add: n)
  have t: "Postings example_dict_segment = replicate (card (set (namedPairs example_batch))) {}"
    using dictionary_pass_postcondition [OF example_dict c] by (rule conjunct1)
  have l: "length (Postings example_dict_segment) = 4" "Stored example_dict_segment = []"
    by (simp_all add: example_dict_segment_def)
  show ?thesis using example_dict c t l by (intro conjI)
qed

text \<open>
  Claim C6 as stated fails once the field ids wrap. In \<open>wrapBatch\<close> the results carry
  one field each: 65535 fields without terms, then the field \<open>fieldName 65535\<close> with the
  term "x", then the field "_id" with the term "x". The 65537th registered name,
  \<open>fieldName 65535\<close>, gets field id 0, the id of "_id", so the two (field, term) pairs of
  the batch share one dictionary entry and the arrays get one slot.
\<close>

theorem dictionary_pass_wraps_counterexample:
  "\<not> isl (initializeDict wrapBatch (snd (getOrDefineField ''_id'' New)))
   \<and> length (Postings (projr (initializeDict wrapBatch (snd (getOrDefineField ''_id'' New))))) = 1
   \<and> card (set (namedPairs wrapBatch)) = 2"
proof -
  obtain s where s: "initializeDict wrapBatch (snd (getOrDefineField ''_id'' New)) = Inr s"
    using wrapBatch_total by blast
  have "card (set (namedPairs wrapBatch)) = 2"
    using fieldName_not_id [of 65535] by (simp add: wrapBatch_namedPairs)
  then show ?thesis using wrapBatch_slots [OF s] by (simp add: s)
qed

text \<open>
  Claim C10. After the dictionary pass and after the assembly of any number of documents,
  and still after the sort step, the nine postings-parallel arrays have the same number of
  slots and, for every posting ordinal \<open>p\<close>, the five location sequences
  \<open>Locfields[p]\<close>, \<open>Locstarts[p]\<close>, \<open>Locends[p]\<close>, \<open>Locpos[p]\<close> and
  \<open>Locarraypos[p]\<close> have equal length and \<open>PostingsLocs[p]\<close> is a subset of
  \<open>Postings[p]\<close>. The step that handles one collated (field, term) entry adds the
  document number to \<open>Postings\<close> at the posting index of the entry, and adds it to
  \<open>PostingsLocs\<close> at the same index exactly when the entry has a location; it changes
  the two arrays nowhere else.
\<close>

theorem location_data_consistent:
  assumes "initializeDict results s0 = Inr s1"
    and "foldE (processDocument sched) docs s1 = Inr s"
  shows "loc_consistent s \<and> loc_consistent (sortDictKeys s)
    \<and> (addPosting d fl (f, t, tf) a = Inr a' \<longrightarrow>
          Postings a' = (Postings a)[postingIndex a f t := insert d (Postings a ! postingIndex a f t)]
          \<and> PostingsLocs a' =
              (if Locations tf = [] then PostingsLocs a
               else (PostingsLocs a)[postingIndex a f t :=
                      insert d (PostingsLocs a ! postingIndex a f t)]))"
proof -
  have 1: "loc_consistent s1" using assms(1) by (rule initializeDict_loc_consistent)
  have 2: "loc_consistent s"
    by (rule foldE_invariant [where I = loc_consistent, OF assms(2) 1])
       (rule processDocument_loc_consistent)
  then have 3: "loc_consistent (sortDictKeys s)"
    using loc_consistent_cong [OF sortDictKeys_views(1,2)] by simp
  show ?thesis using 2 3 addPosting_sets [of d fl f t tf a a'] by blast
qed

theorem location_data_consistent_witness:
  "initializeDict example_batch (snd (getOrDefineField ''_id'' New)) = Inr example_dict_segment
   \<and> foldE (processDocument in_order) example_batch example_dict_segment
       = Inr (example_segment\<lparr>DictKeys := [[], [''dog'', ''cat''], [''dog'', ''cat'']]\<rparr>)
   \<and> loc_consistent example_segment"
proof -
  have "sortDictKeys (example_segment\<lparr>DictKeys := [[], [''dog'', ''cat''], [''dog'', ''cat'']]\<rparr>)
      = example_segment"
    by (simp add: sortDictKeys_def example_segment_def)
  then show ?thesis
    using location_data_consistent [OF example_dict example_assembly] example_dict example_assembly
    by simp
qed




text \<open>
  Claim C5, as the code has it. List the (field name, term) pairs of the batch in scanning
  order: results in batch order, within a result the composite fields before the regular
  fields, within a field the terms in the order in which the dictionary pass ranges over
  the map; keep the first appearance of each pair. When the batch, together with "_id",
  has at most 65536 distinct field names, then after the dictionary pass and after the
  assembly of any number of documents the \<open>i\<close>-th pair of that list (counting from 0)
  has the ordinal \<open>i + 1\<close> in the dictionary of its field, the posting index computed for
  it is \<open>i\<close>, the ordinal minus one, and there are as many postings as pairs; the sort
  step changes no ordinal, and the assembly step for a (field, term) entry writes
  \<open>Postings\<close> at that posting index.
\<close>

theorem ordinals_by_first_appearance:
  assumes a: "initializeDict results (snd (getOrDefineField ''_id'' New)) = Inr a"
    and asm: "foldE (processDocument sched) docs a = Inr s"
    and bound: "card (insert ''_id'' (set (batchNames results))) \<le> 65536"
  shows "length (Postings s) = length (firstSeen (namedPairs results))
    \<and> (\<forall>i<length (firstSeen (namedPairs results)).
          (Dicts s ! unat (fieldIDOf s (fst (firstSeen (namedPairs results) ! i))))
             (snd (firstSeen (namedPairs results) ! i)) = Some (i + 1)
          \<and> postingIndex s (fieldIDOf s (fst (firstSeen (namedPairs results) ! i)))
               (snd (firstSeen (namedPairs results) ! i)) = i)
    \<and> Dicts (sortDictKeys s) = Dicts s
    \<and> (addPosting d fl (f, t, tf) b = Inr b' \<longrightarrow>
          Postings b' = (Postings b)[postingIndex b f t := insert d (Postings b ! postingIndex b f t)])"
proof -
  note e = assembly_ext [OF asm]
  have keep: "FieldsMap s name = FieldsMap a name" if "name \<in> dom (FieldsMap a)" for name
  proof -
    from that obtain w where w: "FieldsMap a name = Some w" by blast
    from ext_FieldsMap [OF e w] show ?thesis by (simp add: w)
  qed
  have same: "Dicts s ! g = Dicts a ! g" if "g < length (Dicts a)" for g
    using ext_nth [OF e that] .
  have 1: "length (Postings s) = length (firstSeen (namedPairs results))"
  proof (cases "firstSeen (namedPairs results)")
    case Nil
    then have "namedPairs results = []" using set_firstSeen [of "namedPairs results"] by simp
    then have "batchPairs a results = []" by (simp add: batchPairs_named)
    then show ?thesis using initializeDict_slots [OF a] assembly_length [OF asm] Nil by simp
  next
    case (Cons p ps)
    then have "0 < length (firstSeen (namedPairs results))" by simp
    from ordinals_in_order(3) [OF a bound this] assembly_length [OF asm] show ?thesis by simp
  qed
  have 2: "\<forall>i<length (firstSeen (namedPairs results)).
          (Dicts s ! unat (fieldIDOf s (fst (firstSeen (namedPairs results) ! i))))
             (snd (firstSeen (namedPairs results) ! i)) = Some (i + 1)
          \<and> postingIndex s (fieldIDOf s (fst (firstSeen (namedPairs results) ! i)))
               (snd (firstSeen (namedPairs results) ! i)) = i"
  proof (intro allI impI)
    fix i assume i: "i < length (firstSeen (namedPairs results))"
    note o = ordinals_in_order [OF a bound i]
    have l: "(Dicts s ! unat (fieldIDOf s (fst (firstSeen (namedPairs results) ! i))))
             (snd (firstSeen (namedPairs results) ! i)) = Some (Suc i)"
      using built_pair_lookup(1) [OF initializeDict_spec(1) [OF a] o(2) keep same] o(1) by simp
    from l postingIndex_Some [OF l]
    show "(Dicts s ! unat (fieldIDOf s (fst (firstSeen (namedPairs results) ! i))))
             (snd (firstSeen (namedPairs results) ! i)) = Some (i + 1)
          \<and> postingIndex s (fieldIDOf s (fst (firstSeen (namedPairs results) ! i)))
               (snd (firstSeen (namedPairs results) ! i)) = i"
      by simp
  qed
  have 3: "addPosting d fl (f, t, tf) b = Inr b' \<longrightarrow>
          Postings b' = (Postings b)[postingIndex b f t := insert d (Postings b ! postingIndex b f t)]"
    using addPosting_sets(1) [of d fl f t tf b b'] by blast
  show ?thesis using 1 2 3 sortDictKeys_Dicts [of s] by (intro conjI)
qed

theorem ordinals_by_first_appearance_witness:
  "initializeDict example_batch (snd (getOrDefineField ''_id'' New)) = Inr example_dict_segment
   \<and> foldE (processDocument in_order) example_batch example_dict_segment
       = Inr (example_segment\<lparr>DictKeys := [[], [''dog'', ''cat''], [''dog'', ''cat'']]\<rparr>)
   \<and> card (insert ''_id'' (set (batchNames example_batch))) \<le> 65536
   \<and> length (Postings (example_segment\<lparr>DictKeys := [[], [''dog'', ''cat''], [''dog'', ''cat'']]\<rparr>))
       = length (firstSeen (namedPairs example_batch))
   \<and> firstSeen (namedPairs example_batch)
       = [(''_all'', ''dog''), (''_all'', ''cat''), (''body'', ''dog''), (''body'', ''cat'')]"
proof -
  have n: "batchNames example_batch = [''_all'', ''body'', ''body'']"
    by (simp add: batchNames_def resultItems_def example_defs enumerate_eq_zip)
  have c: "card (insert ''_id'' (set (batchNames example_batch))) \<le> 65536"
    by (simp add: n)
  have t: "length (Postings (example_segment\<lparr>DictKeys := [[], [''dog'', ''cat''], [''dog'', ''cat'']]\<rparr>))
       = length (firstSeen (namedPairs example_batch))"
    using ordinals_by_first_appearance [OF example_dict example_assembly c] by (rule conjunct1)
  have p: "firstSeen (namedPairs example_batch)
       = [(''_all'', ''dog''), (''_all'', ''cat''), (''body'', ''dog''), (''body'', ''cat'')]"
    by (simp add: namedPairs_def resultItems_def example_defs enumerate_eq_zip firstSeen_def see_def)
  show ?thesis using example_dict example_assembly c t p by (intro conjI)
qed

text \<open>
  Claim C5 as stated fails once the field ids wrap. In \<open>wrapBatch\<close> the pair
  (\<open>fieldName 65535\<close>, "x") appears first and the pair ("_id", "x") second, so the claim
  gives them the ordinals 1 and 2. The 65537th registered name, \<open>fieldName 65535\<close>, has
  field id 0, the id of "_id", so the dictionary pass finds "x" already present when it
  reaches "_id": the second pair has the ordinal 1 of the first.
\<close>

theorem ordinal_shared_after_wrap_counterexample:
  "\<not> isl (initializeDict wrapBatch (snd (getOrDefineField ''_id'' New)))
   \<and> firstSeen (namedPairs wrapBatch) = [(fieldName 65535, ''x''), (''_id'', ''x'')]
   \<and> (Dicts (projr (initializeDict wrapBatch (snd (getOrDefineField ''_id'' New))))
        ! unat (fieldIDOf (projr (initializeDict wrapBatch (snd (getOrDefineField ''_id'' New)))) ''_id''))
       ''x'' = Some 1"
proof -
  obtain s where s: "initializeDict wrapBatch (snd (getOrDefineField ''_id'' New)) = Inr s"
    using wrapBatch_total by blast
  note a = initializeDict_spec [OF s]
  note id = wrapBatch_ids [OF s]
  have fs: "firstSeen (namedPairs wrapBatch) = [(fieldName 65535, ''x''), (''_id'', ''x'')]"
    using fieldName_not_id [of 65535] by (simp add: wrapBatch_namedPairs firstSeen_def see_def)
  have "batchPairs s wrapBatch = [(0, ''x''), (0, ''x'')]"
    by (simp add: batchPairs_named wrapBatch_namedPairs id)
  then have "firstSeen (batchPairs s wrapBatch) = [(0, ''x'')]"
    by (simp add: firstSeen_def see_def)
  then have "dict_rep [(0, ''x'')] s" using a(1) by (simp add: dict_built_def)
  then have "(Dicts s ! unat (0 :: uint16)) ''x'' = Some 1"
    by (simp add: dict_rep_def)
  then show ?thesis using fs by (simp add: s id)
qed

end
